theory Spec2Isabelle
  imports Main "HOL-Library.Word"
begin

section \<open>The directed-graph engine of Graph.hpp\<close>

text \<open>
  The nodes of Graph.hpp are heap objects linked by raw pointers. They are modelled
  by an explicit store: the heap is the list of all node objects, a pointer is
  \<open>Some a\<close> for the address \<open>a\<close> (a position of the heap) or \<open>None\<close> for
  \<open>nullptr\<close>, and \<open>new\<close> appends to the heap. Identities (\<open>uint32_t index\<close>) are
  32-bit words. Sizes and positions of vectors are natural numbers: the vectors are
  taken to hold fewer than \<open>2^32\<close> entries, so the \<open>uint32_t\<close> copies the code
  makes of \<open>size()\<close> are exact. A \<open>std::out_of_range\<close> thrown by \<open>vector::at\<close> and
  the dereference of an absent or dangling pointer are error values; the heap as it
  was left behind a throw is not modelled.
\<close>

type_synonym u32 = "32 word"
type_synonym u8 = "8 word"
type_synonym ptr = "nat option"

datatype fault = OutOfRange | NullDeref

record 'd c_GraphNode =
  index :: u32
  nodeData :: 'd
  cnt_out :: "ptr list"
  cnt_in :: "ptr list"

type_synonym 'd heap = "'d c_GraphNode list"

text \<open>\<open>vector::at\<close>, bounds-checked.\<close>

definition at :: "'a list \<Rightarrow> nat \<Rightarrow> fault + 'a" where
  "at xs i = (if i < length xs then Inr (xs ! i) else Inl OutOfRange)"

text \<open>\<open>vector::erase(begin() + i)\<close>.\<close>

definition erase :: "'a list \<Rightarrow> nat \<Rightarrow> 'a list" where
  "erase xs i = take i xs @ drop (Suc i) xs"

text \<open>Reading through a pointer; \<open>nullptr\<close> and addresses outside the heap fault.\<close>

definition deref :: "'d heap \<Rightarrow> ptr \<Rightarrow> fault + 'd c_GraphNode" where
  "deref h p = (case p of None \<Rightarrow> Inl NullDeref
                | Some a \<Rightarrow> if a < length h then Inr (h ! a) else Inl NullDeref)"

definition externalDegree :: "'d c_GraphNode \<Rightarrow> nat" where
  "externalDegree n = length (cnt_out n)"

definition internalDegree :: "'d c_GraphNode \<Rightarrow> nat" where
  "internalDegree n = length (cnt_in n)"

subsection \<open>Node operations\<close>

text \<open>
  \<open>this->establishCnt(other)\<close>; \<open>this\<close> is the address \<open>a\<close>. The two nodes are
  compared by identity value, as the code does, not by address.
\<close>

definition establishCnt :: "'d heap \<Rightarrow> nat \<Rightarrow> ptr \<Rightarrow> fault + ('d heap \<times> nat)" where
  "establishCnt h a other =
    (case deref h (Some a) of Inl e \<Rightarrow> Inl e | Inr this \<Rightarrow>
      (case other of None \<Rightarrow> Inr (h, length (cnt_out this))
       | Some b \<Rightarrow>
          (case deref h other of Inl e \<Rightarrow> Inl e | Inr ob \<Rightarrow>
            if index ob \<noteq> index this then
              (let h1 = h[a := this\<lparr>cnt_out := cnt_out this @ [other]\<rparr>];
                   ob1 = h1 ! b;
                   h2 = h1[b := ob1\<lparr>cnt_in := cnt_in ob1 @ [Some a]\<rparr>]
               in Inr (h2, length (cnt_out (h2 ! a))))
            else Inr (h, length (cnt_out this)))))"

text \<open>
  The loop of \<open>severCnt(c_GraphNode*)\<close>. \<open>extnum\<close>, \<open>intnum\<close> and \<open>maxidx\<close> are
  the sizes read before the loop and never refreshed; \<open>out\<close> is \<open>this->cnt_out\<close> and
  \<open>inn\<close> is \<open>other->cnt_in\<close> as the loop has left them so far.
\<close>

function sever_loop :: "nat \<Rightarrow> nat \<Rightarrow> nat \<Rightarrow> ptr \<Rightarrow> ptr \<Rightarrow> nat \<Rightarrow> ptr list \<Rightarrow> ptr list
    \<Rightarrow> bool \<Rightarrow> bool \<Rightarrow> fault + (ptr list \<times> ptr list)" where
  "sever_loop extnum intnum maxidx this other i out inn gotExt gotInt =
    (if i < maxidx then
      (case (if i < extnum then at out i else Inr None) of Inl e \<Rightarrow> Inl e
       | Inr tmpExt \<Rightarrow>
        (case (if i < intnum then at inn i else Inr None) of Inl e \<Rightarrow> Inl e
         | Inr tmpInt \<Rightarrow>
          (let out1 = (if tmpExt = other then erase out i else out);
               gotExt1 = (tmpExt = other \<or> gotExt);
               inn1 = (if tmpInt = this then erase inn i else inn);
               gotInt1 = (tmpInt = this \<or> gotInt)
           in if gotExt1 \<and> gotInt1 then Inr (out1, inn1)
              else sever_loop extnum intnum maxidx this other (Suc i) out1 inn1 gotExt1 gotInt1)))
     else Inr (out, inn))"
  by pat_completeness auto
termination
  by (relation "measure (\<lambda>(extnum, intnum, maxidx, this, other, i, rest). maxidx - i)") auto

declare sever_loop.simps [simp del]

definition severCnt :: "'d heap \<Rightarrow> nat \<Rightarrow> ptr \<Rightarrow> fault + ('d heap \<times> nat)" where
  "severCnt h a other =
    (case deref h (Some a) of Inl e \<Rightarrow> Inl e | Inr this \<Rightarrow>
      (let extnum = length (cnt_out this) in
       case other of None \<Rightarrow> Inr (h, extnum)
       | Some b \<Rightarrow>
          (case deref h other of Inl e \<Rightarrow> Inl e | Inr ob \<Rightarrow>
            if index ob = index this then Inr (h, extnum)
            else
              (let intnum = length (cnt_in ob);
                   maxidx = (if extnum > intnum then extnum else intnum)
               in case sever_loop extnum intnum maxidx (Some a) other 0
                         (cnt_out this) (cnt_in ob) False False of
                    Inl e \<Rightarrow> Inl e
                  | Inr (out1, inn1) \<Rightarrow>
                     (let h1 = h[a := this\<lparr>cnt_out := out1\<rparr>];
                          ob1 = h1 ! b;
                          h2 = h1[b := ob1\<lparr>cnt_in := inn1\<rparr>]
                      in Inr (h2, length (cnt_out (h2 ! a))))))))"

text \<open>The value search of \<open>severCnt(uint32_t)\<close>: erase the first \<open>this\<close>, then stop.\<close>

fun erase_first :: "'a \<Rightarrow> 'a list \<Rightarrow> 'a list" where
  "erase_first x [] = []"
| "erase_first x (y # ys) = (if y = x then ys else y # erase_first x ys)"

definition severCnt_at :: "'d heap \<Rightarrow> nat \<Rightarrow> nat \<Rightarrow> fault + ('d heap \<times> nat)" where
  "severCnt_at h a pos =
    (case deref h (Some a) of Inl e \<Rightarrow> Inl e | Inr this \<Rightarrow>
      (let extnum = length (cnt_out this) in
       if pos \<ge> extnum then Inr (h, extnum)
       else
        (let other = cnt_out this ! pos in
         case deref h other of Inl e \<Rightarrow> Inl e | Inr ob \<Rightarrow>
           (let b = the other;
                h1 = h[b := ob\<lparr>cnt_in := erase_first (Some a) (cnt_in ob)\<rparr>];
                this1 = h1 ! a;
                h2 = h1[a := this1\<lparr>cnt_out := erase (cnt_out this1) pos\<rparr>]
            in Inr (h2, length (cnt_out (h2 ! a)))))))"

definition traverseCnt :: "'d c_GraphNode \<Rightarrow> nat \<Rightarrow> ptr" where
  "traverseCnt n pos = (if pos \<ge> length (cnt_out n) then None else cnt_out n ! pos)"

subsection \<open>The search header\<close>

record c_SearchHeader =
  visit_queue :: "ptr list"
  idx_visited :: "u32 list"
  min_idx :: u32
  max_idx :: u32

definition new_header :: c_SearchHeader where
  "new_header = \<lparr>visit_queue = [], idx_visited = [], min_idx = 4294967293, max_idx = 0\<rparr>"

definition testAdd :: "c_SearchHeader \<Rightarrow> u32 \<Rightarrow> bool \<times> c_SearchHeader" where
  "testAdd hdr idx =
    (if idx > max_idx hdr then
       (True, hdr\<lparr>idx_visited := idx_visited hdr @ [idx],
                 min_idx := (if idx < min_idx hdr then idx else min_idx hdr),
                 max_idx := idx\<rparr>)
     else if idx < min_idx hdr then
       (True, hdr\<lparr>idx_visited := idx_visited hdr @ [idx], min_idx := idx\<rparr>)
     else if idx = max_idx hdr \<or> idx = min_idx hdr then (False, hdr)
     else if idx \<in> set (idx_visited hdr) then (False, hdr)
     else (True, hdr\<lparr>idx_visited := idx_visited hdr @ [idx]\<rparr>))"

text \<open>A sequence of \<open>testAdd\<close> calls on one header, with the answer of each call.\<close>

fun testAdd_seq :: "c_SearchHeader \<Rightarrow> u32 list \<Rightarrow> bool list \<times> c_SearchHeader" where
  "testAdd_seq hdr [] = ([], hdr)"
| "testAdd_seq hdr (x # xs) =
    (let (b, hdr1) = testAdd hdr x; (bs, hdr2) = testAdd_seq hdr1 xs in (b # bs, hdr2))"

text \<open>
  The plain first-occurrence test the header is compared with: an identity is accepted
  and recorded when it is not among those seen so far.
\<close>

fun first_occurrence_seq :: "u32 list \<Rightarrow> u32 list \<Rightarrow> bool list \<times> u32 list" where
  "first_occurrence_seq seen [] = ([], seen)"
| "first_occurrence_seq seen (x # xs) =
    (let (bs, seen2) = first_occurrence_seq (if x \<in> set seen then seen else seen @ [x]) xs
     in ((x \<notin> set seen) # bs, seen2))"

subsection \<open>The graph container\<close>

text \<open>
  The fields \<open>from\<close> and \<open>to\<close> of \<open>c_GraphCnt\<close> are written \<open>cnt_from\<close> and
  \<open>cnt_to\<close>. \<open>new c_GraphNode(id, val)\<close> appends \<open>new_node id val\<close> to the heap.
\<close>

record c_GraphCnt =
  cnt_from :: u32
  cnt_to :: u32
  priority :: u8

record c_Graph =
  raw_ptrs :: "ptr list"
  calc_cnts :: "c_GraphCnt list"
  degrees :: "nat list"
  indexes :: "u32 list"
  count :: nat

definition new_node :: "u32 \<Rightarrow> 'd \<Rightarrow> 'd c_GraphNode" where
  "new_node ident val = \<lparr>index = ident, nodeData = val, cnt_out = [], cnt_in = []\<rparr>"

definition empty_graph :: c_Graph where
  "empty_graph = \<lparr>raw_ptrs = [], calc_cnts = [], degrees = [], indexes = [], count = 0\<rparr>"

text \<open>
  \<open>idxMap\<close>: the position of the identity as a \<open>uint32_t\<close>, or \<open>(uint32_t)(-1)\<close>.
  The callers take both 4294967293 and \<open>(uint32_t)(-1)\<close> for "not found".
\<close>

fun idxMap_loop :: "u32 list \<Rightarrow> u32 \<Rightarrow> u32 \<Rightarrow> u32" where
  "idxMap_loop [] i ident = - 1"
| "idxMap_loop (x # xs) i ident = (if x = ident then i else idxMap_loop xs (i + 1) ident)"

definition idxMap :: "c_Graph \<Rightarrow> u32 \<Rightarrow> u32" where
  "idxMap g ident = idxMap_loop (indexes g) 0 ident"

definition not_found :: "u32 \<Rightarrow> bool" where
  "not_found i \<longleftrightarrow> i = 4294967293 \<or> i = - 1"

text \<open>The lookup of one endpoint in the constructor, creating the node when it is new.\<close>

definition resolve_or_create :: "'d \<Rightarrow> 'd heap \<Rightarrow> c_Graph \<Rightarrow> u32 \<Rightarrow> 'd heap \<times> c_Graph \<times> u32" where
  "resolve_or_create prefill h g ident =
    (let i = idxMap g ident in
     if not_found i then
       (h @ [new_node ident prefill],
        g\<lparr>indexes := indexes g @ [ident], raw_ptrs := raw_ptrs g @ [Some (length h)]\<rparr>,
        word_of_nat (length (indexes g @ [ident])) - 1)
     else (h, g, i))"

fun calcDegrees_loop :: "'d heap \<Rightarrow> ptr list \<Rightarrow> nat list \<Rightarrow> nat \<Rightarrow> nat list \<Rightarrow> fault + (nat list \<times> nat)" where
  "calcDegrees_loop h raw [] largest degs = Inr (degs, largest)"
| "calcDegrees_loop h raw (i # is) largest degs =
    (case at raw i of Inl e \<Rightarrow> Inl e | Inr p \<Rightarrow>
      (case deref h p of Inl e \<Rightarrow> Inl e | Inr n \<Rightarrow>
        (let tmp = externalDegree n
         in calcDegrees_loop h raw is (if tmp > largest then tmp else largest) (degs @ [tmp]))))"

definition calcDegrees :: "'d heap \<Rightarrow> c_Graph \<Rightarrow> fault + (c_Graph \<times> nat)" where
  "calcDegrees h g =
    (case calcDegrees_loop h (raw_ptrs g) [0..<count g] 0 [] of Inl e \<Rightarrow> Inl e
     | Inr (degs, largest) \<Rightarrow> Inr (g\<lparr>degrees := degs\<rparr>, largest))"

fun construct_loop :: "'d \<Rightarrow> 'd heap \<Rightarrow> c_Graph \<Rightarrow> c_GraphCnt list \<Rightarrow> fault + ('d heap \<times> c_Graph)" where
  "construct_loop prefill h g [] = Inr (h, g)"
| "construct_loop prefill h g (TMP # rest) =
    (let (h1, g1, i) = resolve_or_create prefill h g (cnt_from TMP);
         (h2, g2, j) = resolve_or_create prefill h1 g1 (cnt_to TMP)
     in case at (raw_ptrs g2) (unat i) of Inl e \<Rightarrow> Inl e | Inr pi \<Rightarrow>
         (case at (raw_ptrs g2) (unat j) of Inl e \<Rightarrow> Inl e | Inr pj \<Rightarrow>
           (case pi of None \<Rightarrow> Inl NullDeref | Some a \<Rightarrow>
             (case establishCnt h2 a pj of Inl e \<Rightarrow> Inl e | Inr (h3, n) \<Rightarrow>
               (let g3 = g2\<lparr>calc_cnts := calc_cnts g2 @ [TMP]\<rparr>
                in if i \<ge> 4294967290 \<or> j \<ge> 4294967290 then Inr (h3, g3)
                   else construct_loop prefill h3 g3 rest)))))"

text \<open>The constructor \<open>c_Graph(prefill, connectionList)\<close>, on the heap \<open>h\<close>.\<close>

definition new_graph :: "'d \<Rightarrow> 'd heap \<Rightarrow> c_GraphCnt list \<Rightarrow> fault + ('d heap \<times> c_Graph)" where
  "new_graph prefill h connectionList =
    (case construct_loop prefill h empty_graph connectionList of Inl e \<Rightarrow> Inl e
     | Inr (h1, g1) \<Rightarrow>
        (case calcDegrees h1 (g1\<lparr>count := length (raw_ptrs g1)\<rparr>) of Inl e \<Rightarrow> Inl e
         | Inr (g2, largest) \<Rightarrow> Inr (h1, g2)))"

text \<open>
  The scan of one node's outbound list in \<open>optimizeCnts\<close>. \<open>prioFunc\<close> reads the two
  nodes; the overload without it leaves the priority at its default 0.
\<close>

fun mark_loop :: "('d c_GraphNode \<Rightarrow> 'd c_GraphNode \<Rightarrow> u8) \<Rightarrow> 'd heap \<Rightarrow> 'd c_GraphNode \<Rightarrow> ptr list
    \<Rightarrow> u32 list \<Rightarrow> ptr list \<Rightarrow> u32 \<Rightarrow> u32 \<Rightarrow> c_GraphCnt list
    \<Rightarrow> fault + (c_GraphCnt list \<times> ptr list)" where
  "mark_loop prioFunc h tmp [] marked to_sever minidx maxidx cnts = Inr (cnts, to_sever)"
| "mark_loop prioFunc h tmp (p # ps) marked to_sever minidx maxidx cnts =
    (case deref h p of Inl e \<Rightarrow> Inl e | Inr node \<Rightarrow>
      (let (good, minidx1, maxidx1) =
             (if index node < minidx then (True, index node, maxidx)
              else if index node > maxidx then (True, minidx, index node)
              else (index node \<notin> set marked, minidx, maxidx))
       in if good then
            mark_loop prioFunc h tmp ps (marked @ [index node]) to_sever minidx1 maxidx1
              (cnts @ [\<lparr>cnt_from = index tmp, cnt_to = index node, priority = prioFunc tmp node\<rparr>])
          else mark_loop prioFunc h tmp ps marked (to_sever @ [p]) minidx1 maxidx1 cnts))"

fun sever_all :: "'d heap \<Rightarrow> nat \<Rightarrow> ptr list \<Rightarrow> fault + 'd heap" where
  "sever_all h a [] = Inr h"
| "sever_all h a (dupl # ds) =
    (case severCnt h a dupl of Inl e \<Rightarrow> Inl e | Inr (h1, n) \<Rightarrow> sever_all h1 a ds)"

fun optimize_loop :: "('d c_GraphNode \<Rightarrow> 'd c_GraphNode \<Rightarrow> u8) \<Rightarrow> 'd heap \<Rightarrow> ptr list \<Rightarrow> nat list
    \<Rightarrow> c_GraphCnt list \<Rightarrow> fault + ('d heap \<times> c_GraphCnt list)" where
  "optimize_loop prioFunc h raw [] cnts = Inr (h, cnts)"
| "optimize_loop prioFunc h raw (i # is) cnts =
    (case at raw i of Inl e \<Rightarrow> Inl e | Inr p \<Rightarrow>
      (case deref h p of Inl e \<Rightarrow> Inl e | Inr tmp \<Rightarrow>
        (case mark_loop prioFunc h tmp (cnt_out tmp) [] [] (- 1) 0 cnts of Inl e \<Rightarrow> Inl e
         | Inr (cnts1, to_sever) \<Rightarrow>
            (case sever_all h (the p) to_sever of Inl e \<Rightarrow> Inl e
             | Inr h1 \<Rightarrow> optimize_loop prioFunc h1 raw is cnts1))))"

definition optimizeCnts_prio :: "('d c_GraphNode \<Rightarrow> 'd c_GraphNode \<Rightarrow> u8) \<Rightarrow> 'd heap \<Rightarrow> c_Graph
    \<Rightarrow> fault + ('d heap \<times> c_Graph \<times> nat)" where
  "optimizeCnts_prio prioFunc h g =
    (case optimize_loop prioFunc h (raw_ptrs g) [0..<count g] [] of Inl e \<Rightarrow> Inl e
     | Inr (h1, cnts) \<Rightarrow> Inr (h1, g\<lparr>calc_cnts := cnts\<rparr>, length cnts))"

definition optimizeCnts :: "'d heap \<Rightarrow> c_Graph \<Rightarrow> fault + ('d heap \<times> c_Graph \<times> nat)" where
  "optimizeCnts h g = optimizeCnts_prio (\<lambda>from_node to_node. 0) h g"

text \<open>The priority function of the specification's scenario: \<open>|to.id - from.id|\<close> as \<open>uint8_t\<close>.\<close>

definition testPrioFunc :: "'d c_GraphNode \<Rightarrow> 'd c_GraphNode \<Rightarrow> u8" where
  "testPrioFunc from_node to_node =
    (if index to_node > index from_node then ucast (index to_node - index from_node)
     else ucast (index from_node - index to_node))"

definition cnt :: "u32 \<Rightarrow> u32 \<Rightarrow> c_GraphCnt" where
  "cnt a b = \<lparr>cnt_from = a, cnt_to = b, priority = 0\<rparr>"

subsection \<open>Traversals\<close>

text \<open>
  The traversals recurse through the call stack with no static bound, so each takes
  a fuel argument that bounds the nesting of calls; \<open>None\<close> is "out of fuel". The
  \<open>recurseHeader\<close> argument is \<open>None\<close> for the default \<open>nullptr\<close>, in which case
  the call creates and owns a fresh header. Each call returns its output list with
  the header as it leaves it. A filter function is a predicate on two pointers.
\<close>

definition header_of :: "c_SearchHeader option \<Rightarrow> c_SearchHeader" where
  "header_of recurseHeader = (case recurseHeader of None \<Rightarrow> new_header | Some hdr \<Rightarrow> hdr)"

type_synonym traversal = "(fault + (ptr list \<times> c_SearchHeader)) option"

fun devTraverseDfs :: "nat \<Rightarrow> 'd heap \<Rightarrow> ptr \<Rightarrow> c_SearchHeader option \<Rightarrow> traversal"
  and dfs_for :: "nat \<Rightarrow> 'd heap \<Rightarrow> ptr list \<Rightarrow> c_SearchHeader \<Rightarrow> ptr list \<Rightarrow> traversal" where
  "devTraverseDfs 0 h start recurseHeader = None"
| "devTraverseDfs (Suc n) h start recurseHeader =
    (case start of None \<Rightarrow> Some (Inr ([], header_of recurseHeader))
     | Some a \<Rightarrow>
        (case deref h start of Inl e \<Rightarrow> Some (Inl e) | Inr node \<Rightarrow>
          (let (b, header) = testAdd (header_of recurseHeader) (index node)
           in dfs_for n h (cnt_out node) header (if b then [start] else []))))"
| "dfs_for n h [] header output_list = Some (Inr (output_list, header))"
| "dfs_for n h (p # ps) header output_list =
    (case deref h p of Inl e \<Rightarrow> Some (Inl e) | Inr node \<Rightarrow>
      (let (b, header1) = testAdd header (index node)
       in if b then
            (case devTraverseDfs n h p (Some header1) of None \<Rightarrow> None
             | Some (Inl e) \<Rightarrow> Some (Inl e)
             | Some (Inr (dequeue, header2)) \<Rightarrow>
                 dfs_for n h ps header2 ((output_list @ [p]) @ dequeue))
          else dfs_for n h ps header1 output_list))"

fun devTraverseDfs_Filt :: "nat \<Rightarrow> 'd heap \<Rightarrow> ptr \<Rightarrow> (ptr \<Rightarrow> ptr \<Rightarrow> bool) \<Rightarrow> c_SearchHeader option
      \<Rightarrow> traversal"
  and dfs_filt_for :: "nat \<Rightarrow> 'd heap \<Rightarrow> ptr \<Rightarrow> (ptr \<Rightarrow> ptr \<Rightarrow> bool) \<Rightarrow> ptr list \<Rightarrow> c_SearchHeader
      \<Rightarrow> ptr list \<Rightarrow> traversal" where
  "devTraverseDfs_Filt 0 h start searchFunc recurseHeader = None"
| "devTraverseDfs_Filt (Suc n) h start searchFunc recurseHeader =
    (case start of None \<Rightarrow> Some (Inr ([], header_of recurseHeader))
     | Some a \<Rightarrow>
        (case deref h start of Inl e \<Rightarrow> Some (Inl e) | Inr node \<Rightarrow>
          (let owns_header = (recurseHeader = None);
               (b, header) = testAdd (header_of recurseHeader) (index node)
           in dfs_filt_for n h start searchFunc (cnt_out node) header
                (if b then (if owns_header \<and> searchFunc None start then [start] else [start])
                 else []))))"
| "dfs_filt_for n h start searchFunc [] header output_list = Some (Inr (output_list, header))"
| "dfs_filt_for n h start searchFunc (p # ps) header output_list =
    (case deref h p of Inl e \<Rightarrow> Some (Inl e) | Inr node \<Rightarrow>
      (let (b, header1) = testAdd header (index node)
       in if b then
            (let output1 = (if searchFunc start p then output_list @ [p] else output_list)
             in case devTraverseDfs_Filt n h p searchFunc (Some header1) of None \<Rightarrow> None
                | Some (Inl e) \<Rightarrow> Some (Inl e)
                | Some (Inr (dequeue, header2)) \<Rightarrow>
                    dfs_filt_for n h start searchFunc ps header2
                      (output1 @ filter (\<lambda>i. searchFunc p i) dequeue))
          else dfs_filt_for n h start searchFunc ps header1 output_list))"

text \<open>The first loop of \<open>devTraverseBfs\<close>: record and enqueue the new neighbours.\<close>

fun bfs_for :: "'d heap \<Rightarrow> ptr list \<Rightarrow> c_SearchHeader \<Rightarrow> ptr list \<Rightarrow> fault + (ptr list \<times> c_SearchHeader)" where
  "bfs_for h [] header output_list = Inr (output_list, header)"
| "bfs_for h (p # ps) header output_list =
    (case p of None \<Rightarrow> bfs_for h ps header output_list
     | Some a \<Rightarrow>
        (case deref h p of Inl e \<Rightarrow> Inl e | Inr node \<Rightarrow>
          (let (b, header1) = testAdd header (index node)
           in if b then
                bfs_for h ps (header1\<lparr>visit_queue := visit_queue header1 @ [p]\<rparr>) (output_list @ [p])
              else bfs_for h ps header1 output_list)))"

text \<open>
  \<open>bfs_while\<close> is the inner \<open>while\<close> loop, \<open>bfs_do\<close> the \<open>do ... while\<close> loop around
  it, with the output list and \<open>newqueue\<close> as they stand; \<open>dequeue\<close> is empty at the
  start of every iteration of the outer loop.
\<close>

fun devTraverseBfs :: "nat \<Rightarrow> 'd heap \<Rightarrow> ptr \<Rightarrow> c_SearchHeader option \<Rightarrow> traversal"
  and bfs_do :: "nat \<Rightarrow> 'd heap \<Rightarrow> bool \<Rightarrow> c_SearchHeader \<Rightarrow> ptr list \<Rightarrow> ptr list
      \<Rightarrow> (fault + (ptr list \<times> c_SearchHeader \<times> ptr list)) option"
  and bfs_while :: "nat \<Rightarrow> 'd heap \<Rightarrow> c_SearchHeader \<Rightarrow> ptr list \<Rightarrow> traversal" where
  "devTraverseBfs 0 h start recurseHeader = None"
| "devTraverseBfs (Suc n) h start recurseHeader =
    (case start of None \<Rightarrow> Some (Inr ([], header_of recurseHeader))
     | Some a \<Rightarrow>
        (case deref h start of Inl e \<Rightarrow> Some (Inl e) | Inr node \<Rightarrow>
          (let owns_header = (recurseHeader = None);
               (b, header) = testAdd (header_of recurseHeader) (index node)
           in case bfs_for h (cnt_out node) header (if b then [start] else []) of
                Inl e \<Rightarrow> Some (Inl e)
              | Inr (output1, header1) \<Rightarrow>
                 (case bfs_do n h owns_header header1 output1 [] of None \<Rightarrow> None
                  | Some (Inl e) \<Rightarrow> Some (Inl e)
                  | Some (Inr (output2, header2, newqueue)) \<Rightarrow>
                      if owns_header then Some (Inr (output2, header2))
                      else if newqueue \<noteq> [] then
                        Some (Inr (output2, header2\<lparr>visit_queue := newqueue\<rparr>))
                      else Some (Inr (output2, header2))))))"
| "bfs_do 0 h owns_header header output_list newqueue = None"
| "bfs_do (Suc n) h owns_header header output_list newqueue =
    (case bfs_while n h header [] of None \<Rightarrow> None
     | Some (Inl e) \<Rightarrow> Some (Inl e)
     | Some (Inr (dequeue, header1)) \<Rightarrow>
        (let kept = filter (\<lambda>i. i \<noteq> None) dequeue;
             newqueue1 = newqueue @ kept;
             output1 = output_list @ kept;
             promote = (owns_header \<and> visit_queue header1 = [] \<and> newqueue1 \<noteq> []);
             header2 = (if promote then header1\<lparr>visit_queue := newqueue1\<rparr> else header1);
             newqueue2 = (if promote then [] else newqueue1)
         in if visit_queue header2 \<noteq> [] then bfs_do n h owns_header header2 output1 newqueue2
            else Some (Inr (output1, header2, newqueue2))))"
| "bfs_while 0 h header dequeue = None"
| "bfs_while (Suc n) h header dequeue =
    (if dequeue = [] \<and> visit_queue header \<noteq> [] then
       (case visit_queue header of [] \<Rightarrow> Some (Inl OutOfRange)
        | handle # queue_rest \<Rightarrow>
           (case devTraverseBfs n h handle (Some (header\<lparr>visit_queue := queue_rest\<rparr>)) of
              None \<Rightarrow> None
            | Some (Inl e) \<Rightarrow> Some (Inl e)
            | Some (Inr (dequeue1, header1)) \<Rightarrow> bfs_while n h header1 dequeue1))
     else Some (Inr (dequeue, header)))"

text \<open>The entry points of \<open>c_Graph\<close>; the header of the owning call is deleted.\<close>

definition start_of :: "c_Graph \<Rightarrow> u32 \<Rightarrow> (fault + ptr) option" where
  "start_of g index_start =
    (let init = idxMap g index_start in
     if not_found init then None
     else Some (at (raw_ptrs g) (unat init)))"

definition run_from :: "(ptr \<Rightarrow> traversal) \<Rightarrow> c_Graph \<Rightarrow> u32 \<Rightarrow> (fault + ptr list) option" where
  "run_from traverse g index_start =
    (case start_of g index_start of None \<Rightarrow> Some (Inr [])
     | Some (Inl e) \<Rightarrow> Some (Inl e)
     | Some (Inr start_parent) \<Rightarrow>
        (case traverse start_parent of None \<Rightarrow> None
         | Some (Inl e) \<Rightarrow> Some (Inl e)
         | Some (Inr (output_list, header)) \<Rightarrow> Some (Inr output_list)))"

definition runBreadthFirst :: "nat \<Rightarrow> 'd heap \<Rightarrow> c_Graph \<Rightarrow> u32 \<Rightarrow> (fault + ptr list) option" where
  "runBreadthFirst fuel h g index_start =
    run_from (\<lambda>start. devTraverseBfs fuel h start None) g index_start"

definition runDepthFirst :: "nat \<Rightarrow> 'd heap \<Rightarrow> c_Graph \<Rightarrow> u32 \<Rightarrow> (fault + ptr list) option" where
  "runDepthFirst fuel h g index_start =
    run_from (\<lambda>start. devTraverseDfs fuel h start None) g index_start"

definition runDepthFirst_Filt :: "nat \<Rightarrow> 'd heap \<Rightarrow> c_Graph \<Rightarrow> u32 \<Rightarrow> (ptr \<Rightarrow> ptr \<Rightarrow> bool)
    \<Rightarrow> (fault + ptr list) option" where
  "runDepthFirst_Filt fuel h g index_start searchFunc =
    run_from (\<lambda>start. devTraverseDfs_Filt fuel h start searchFunc None) g index_start"

subsection \<open>Compositions and concrete inputs\<close>

text \<open>\<open>A.establishCnt(B)\<close> immediately followed by \<open>A.severCnt(B)\<close>.\<close>

definition establish_sever :: "'d heap \<Rightarrow> nat \<Rightarrow> nat \<Rightarrow> fault + ('d heap \<times> nat)" where
  "establish_sever h a b =
    (case establishCnt h a (Some b) of Inl e \<Rightarrow> Inl e
     | Inr (h1, n) \<Rightarrow> severCnt h1 a (Some b))"

text \<open>A node literal, for writing heaps down.\<close>

definition node_of :: "u32 \<Rightarrow> ptr list \<Rightarrow> ptr list \<Rightarrow> unit c_GraphNode" where
  "node_of ident out inn = \<lparr>index = ident, nodeData = (), cnt_out = out, cnt_in = inn\<rparr>"

subsection \<open>Invariants\<close>

text \<open>
  What the header knows when \<open>S\<close> is the set of identities it has accepted: they are all
  recorded, and the window is their minimum and maximum (or still at its initial bound).
\<close>

definition hdr_inv :: "c_SearchHeader \<Rightarrow> u32 set \<Rightarrow> bool" where
  "hdr_inv hdr S \<longleftrightarrow>
     set (idx_visited hdr) = S \<and>
     (\<forall>x\<in>S. x \<le> max_idx hdr) \<and> (max_idx hdr = 0 \<or> max_idx hdr \<in> S) \<and>
     (\<forall>x\<in>S. min_idx hdr \<le> x) \<and> (min_idx hdr = 4294967293 \<or> min_idx hdr \<in> S) \<and>
     (\<forall>x\<in>S. x \<le> 4294967293)"

text \<open>A reference is present when it is not \<open>nullptr\<close> and addresses a node of the heap.\<close>

definition present :: "'d heap \<Rightarrow> ptr \<Rightarrow> bool" where
  "present h p = (case p of None \<Rightarrow> False | Some a \<Rightarrow> a < length h)"

definition heap_present :: "'d heap \<Rightarrow> bool" where
  "heap_present h \<longleftrightarrow>
     (\<forall>n\<in>set h. (\<forall>p\<in>set (cnt_out n). present h p) \<and> (\<forall>p\<in>set (cnt_in n). present h p))"

text \<open>
  The states of a heap and a graph that the listed operations produce: construction
  from a descriptor list, then the creation of further nodes with no connections,
  \<open>establishCnt\<close>, both \<open>severCnt\<close> and both \<open>optimizeCnts\<close>, on any node and
  with any argument, whenever the call returns.
\<close>

inductive reachable :: "'d heap \<Rightarrow> c_Graph \<Rightarrow> bool" where
  constructed: "new_graph prefill [] connectionList = Inr (h, g) \<Longrightarrow> reachable h g"
| created: "reachable h g \<Longrightarrow> reachable (h @ [new_node ident val]) g"
| established: "reachable h g \<Longrightarrow> establishCnt h a other = Inr (h1, n) \<Longrightarrow> reachable h1 g"
| severed: "reachable h g \<Longrightarrow> severCnt h a other = Inr (h1, n) \<Longrightarrow> reachable h1 g"
| severed_at: "reachable h g \<Longrightarrow> severCnt_at h a pos = Inr (h1, n) \<Longrightarrow> reachable h1 g"
| optimized: "reachable h g \<Longrightarrow> optimizeCnts h g = Inr (h1, g1, n) \<Longrightarrow> reachable h1 g1"
| optimized_prio:
    "reachable h g \<Longrightarrow> optimizeCnts_prio prioFunc h g = Inr (h1, g1, n) \<Longrightarrow> reachable h1 g1"

text \<open>
  The link between a \<open>c_Graph\<close> and the heap. The graph owns the nodes of a heap when
  its pointer list holds their addresses in storage order, its identity list holds
  their identities at the same positions, and no two of them share an identity. In a
  state the operations produce, the graph owns the first \<open>count\<close> nodes of the heap,
  the others being nodes created after it, and \<open>count\<close> is below the positions that
  \<open>idxMap\<close>'s callers take for "not found".
\<close>

definition graph_owns :: "'d heap \<Rightarrow> c_Graph \<Rightarrow> bool" where
  "graph_owns h g \<longleftrightarrow>
     raw_ptrs g = map Some [0..<length h] \<and> indexes g = map index h \<and> distinct (map index h)"

definition graph_inv :: "'d heap \<Rightarrow> c_Graph \<Rightarrow> bool" where
  "graph_inv h g \<longleftrightarrow>
     count g \<le> length h \<and> count g \<le> 4294967292 \<and> graph_owns (take (count g) h) g"

subsection \<open>Reachability and the orders of traversal\<close>

text \<open>
  The graphs the traversals are specified for: every list entry is present, no two
  nodes share an identity, and no identity is one of the two largest values, which are
  reserved.
\<close>

definition graph_ok :: "'d heap \<Rightarrow> bool" where
  "graph_ok h \<longleftrightarrow> heap_present h \<and> distinct (map index h) \<and> (\<forall>n\<in>set h. index n \<le> 4294967293)"

definition edges :: "'d heap \<Rightarrow> (nat \<times> nat) set" where
  "edges h = {(a, b). a < length h \<and> Some b \<in> set (cnt_out (h ! a))}"

text \<open>The edges that lead to a node not yet recorded, \<open>V\<close> being the recorded nodes.\<close>

definition white :: "'d heap \<Rightarrow> nat set \<Rightarrow> (nat \<times> nat) set" where
  "white h V = {(a, b). (a, b) \<in> edges h \<and> b \<notin> V}"

text \<open>
  Pre-order with immediate descent, in the specification's words: going through the
  neighbours in list order with \<open>V\<close> the nodes recorded so far, a recorded neighbour
  is passed over; a new one is put out at once, followed by what the descent into it
  puts out, which is all of its descendants over nodes not yet recorded, and only then
  is the next neighbour looked at.
\<close>

inductive preorder :: "'d heap \<Rightarrow> nat set \<Rightarrow> ptr list \<Rightarrow> nat list \<Rightarrow> bool" for h where
  preorder_Nil: "preorder h V [] []"
| preorder_seen: "b \<in> V \<Longrightarrow> preorder h V ps out \<Longrightarrow> preorder h V (Some b # ps) out"
| preorder_new: "b \<notin> V \<Longrightarrow> preorder h (insert b V) (cnt_out (h ! b)) sub
      \<Longrightarrow> set (b # sub) = {c. (b, c) \<in> (white h V)\<^sup>*}
      \<Longrightarrow> preorder h (V \<union> set (b # sub)) ps out
      \<Longrightarrow> preorder h V (Some b # ps) (b # sub @ out)"

text \<open>The identities of a set of addresses.\<close>

definition idset :: "'d heap \<Rightarrow> nat set \<Rightarrow> u32 set" where
  "idset h V = (\<lambda>a. index (h ! a)) ` V"

subsection \<open>Level order\<close>

text \<open>
  The neighbours of a list that are not yet recorded, in list order, each once;
  \<open>V\<close> is the set of recorded nodes. An absent entry is passed over.
\<close>

fun newnodes :: "nat set \<Rightarrow> ptr list \<Rightarrow> nat list" where
  "newnodes V [] = []"
| "newnodes V (p # ps) =
    (case p of None \<Rightarrow> newnodes V ps
     | Some b \<Rightarrow> if b \<in> V then newnodes V ps else b # newnodes (insert b V) ps)"

text \<open>
  Level order with ties broken by adjacency-list order, in the specification's words:
  level 0 is the start node; the next level is made of the nodes not yet recorded
  among the neighbours of the nodes of this level, taken in the order of this level
  and, for each of its nodes, in the order of its outbound list.
\<close>

definition next_level :: "'d heap \<Rightarrow> nat set \<Rightarrow> nat list \<Rightarrow> nat list" where
  "next_level h V L = newnodes V (concat (map (\<lambda>b. cnt_out (h ! b)) L))"

primrec level_state :: "'d heap \<Rightarrow> nat \<Rightarrow> nat \<Rightarrow> nat set \<times> nat list" where
  "level_state h a 0 = ({a}, [a])"
| "level_state h a (Suc k) =
    (let (V, L) = level_state h a k; N = next_level h V L in (V \<union> set N, N))"

definition level :: "'d heap \<Rightarrow> nat \<Rightarrow> nat \<Rightarrow> nat list" where
  "level h a k = snd (level_state h a k)"

definition level_order :: "'d heap \<Rightarrow> nat \<Rightarrow> nat list" where
  "level_order h a = concat (map (level h a) [0..<length h])"

text \<open>The shortest-hop distance from \<open>a\<close> to \<open>b\<close>.\<close>

definition hops :: "'d heap \<Rightarrow> nat \<Rightarrow> nat \<Rightarrow> nat" where
  "hops h a b = (LEAST k. (a, b) \<in> edges h ^^ k)"

text \<open>
  The order in which a first-in-first-out queue puts nodes out: the head of the queue
  is taken off, its new neighbours are put out and appended to the queue.
\<close>

inductive queue_order :: "'d heap \<Rightarrow> nat set \<Rightarrow> nat list \<Rightarrow> nat list \<Rightarrow> bool" for h where
  queue_Nil: "queue_order h V [] []"
| queue_Cons: "C = newnodes V (cnt_out (h ! s)) \<Longrightarrow> queue_order h (V \<union> set C) (Q @ C) out
      \<Longrightarrow> queue_order h V (s # Q) (C @ out)"

text \<open>A node is expanded when all its neighbours are recorded.\<close>

definition expanded :: "'d heap \<Rightarrow> nat set \<Rightarrow> nat \<Rightarrow> bool" where
  "expanded h V s \<longleftrightarrow> (\<forall>b. Some b \<in> set (cnt_out (h ! s)) \<longrightarrow> b \<in> V)"

text \<open>
  What holds when \<open>devTraverseBfs\<close> is called on the node \<open>s\<close> by a call that has
  just taken it off the queue, and what holds when it returns: \<open>V\<close> are the recorded
  nodes and \<open>Q\<close> is the queue.
\<close>

definition bfs_pre :: "'d heap \<Rightarrow> nat \<Rightarrow> nat set \<Rightarrow> nat list \<Rightarrow> c_SearchHeader \<Rightarrow> bool" where
  "bfs_pre h s V Q hdr \<longleftrightarrow>
     s < length h \<and> V \<subseteq> {..<length h} \<and> s \<in> V \<and> set Q \<subseteq> V \<and>
     hdr_inv hdr (idset h V) \<and> visit_queue hdr = map Some Q \<and>
     (\<forall>x\<in>V. x \<notin> set Q \<longrightarrow> x \<noteq> s \<longrightarrow> expanded h V x)"

definition bfs_post :: "'d heap \<Rightarrow> nat \<Rightarrow> nat set \<Rightarrow> nat list \<Rightarrow> c_SearchHeader \<Rightarrow> bool" where
  "bfs_post h s V Q hdr \<longleftrightarrow>
     (\<exists>n out hdr1.
        devTraverseBfs n h (Some s) (Some hdr) = Some (Inr (map Some out, hdr1)) \<and>
        queue_order h V (s # Q) out \<and>
        hdr_inv hdr1 (idset h (V \<union> set out)) \<and>
        visit_queue hdr1 = map Some (drop (length (newnodes V (cnt_out (h ! s)))) out) \<and>
        set out \<subseteq> {..<length h} \<and> set out \<inter> V = {} \<and>
        (\<forall>x\<in>V \<union> set out. expanded h (V \<union> set out) x))"

section \<open>Properties\<close>

subsection \<open>The search header is a first-occurrence test\<close>

lemma hdr_inv_new: "hdr_inv new_header {}"
  by (simp add: hdr_inv_def new_header_def)

lemma testAdd_spec:
  assumes "hdr_inv hdr S" "x \<le> 4294967293"
  shows "\<exists>hdr1. testAdd hdr x = (x \<notin> S, hdr1) \<and> hdr_inv hdr1 (insert x S) \<and>
           visit_queue hdr1 = visit_queue hdr \<and> (x \<in> S \<longrightarrow> hdr1 = hdr) \<and>
           idx_visited hdr1 = (if x \<in> S then idx_visited hdr else idx_visited hdr @ [x])"
proof -
  from assms(1) have vis: "set (idx_visited hdr) = S"
    and mx: "\<And>y. y \<in> S \<Longrightarrow> y \<le> max_idx hdr" and mx0: "max_idx hdr = 0 \<or> max_idx hdr \<in> S"
    and mn: "\<And>y. y \<in> S \<Longrightarrow> min_idx hdr \<le> y"
    and mn0: "min_idx hdr = 4294967293 \<or> min_idx hdr \<in> S"
    and bd: "\<And>y. y \<in> S \<Longrightarrow> y \<le> 4294967293"
    by (auto simp: hdr_inv_def)
  consider (above) "x > max_idx hdr" | (below) "\<not> x > max_idx hdr" "x < min_idx hdr"
    | (edge) "\<not> x > max_idx hdr" "\<not> x < min_idx hdr" "x = max_idx hdr \<or> x = min_idx hdr"
    | (inside) "\<not> x > max_idx hdr" "\<not> x < min_idx hdr" "x \<noteq> max_idx hdr" "x \<noteq> min_idx hdr"
    by blast
  then show ?thesis
  proof cases
    case above
    then have new: "x \<notin> S" using mx by (auto simp: not_less[symmetric])
    let ?h = "hdr\<lparr>idx_visited := idx_visited hdr @ [x],
                 min_idx := (if x < min_idx hdr then x else min_idx hdr), max_idx := x\<rparr>"
    have t: "testAdd hdr x = (True, ?h)" using above by (simp add: testAdd_def)
    have le: "\<And>y. y \<in> S \<Longrightarrow> y \<le> x" using mx above by (meson less_imp_le order.trans)
    have ge: "\<And>y. y \<in> S \<Longrightarrow> x < min_idx hdr \<Longrightarrow> x \<le> y"
      using mn by (meson less_imp_le order.trans)
    have "hdr_inv ?h (insert x S)"
      unfolding hdr_inv_def using vis le ge mn mn0 bd assms(2)
      by auto
    then show ?thesis using t new by auto
  next
    case below
    then have new: "x \<notin> S" using mn by (auto simp: not_less[symmetric])
    let ?h = "hdr\<lparr>idx_visited := idx_visited hdr @ [x], min_idx := x\<rparr>"
    have t: "testAdd hdr x = (True, ?h)" using below by (simp add: testAdd_def)
    have ge: "\<And>y. y \<in> S \<Longrightarrow> x \<le> y" using mn below(2) by (meson less_imp_le order.trans)
    have le: "x \<le> max_idx hdr" using below(1) by (simp add: not_less)
    have "hdr_inv ?h (insert x S)"
      unfolding hdr_inv_def using vis mx mx0 ge le bd assms(2)
      by auto
    then show ?thesis using t new by auto
  next
    case edge
    have t: "testAdd hdr x = (False, hdr)" using edge by (simp add: testAdd_def)
    have old: "x \<in> S"
    proof (cases "x = max_idx hdr")
      case True
      show ?thesis
      proof (cases "max_idx hdr = 0")
        case False then show ?thesis using mx0 True by simp
      next
        case z: True
        then have "min_idx hdr = 0" using edge(2) True by (simp add: not_less)
        then show ?thesis using mn0 True z by auto
      qed
    next
      case False
      then have xm: "x = min_idx hdr" using edge(3) by simp
      show ?thesis
      proof (cases "min_idx hdr = 4294967293")
        case False then show ?thesis using mn0 xm by simp
      next
        case b: True
        then have "max_idx hdr \<ge> 4294967293" using edge(1) xm by (simp add: not_less)
        then have "max_idx hdr \<in> S" using mx0 by auto
        then have "max_idx hdr = 4294967293" using bd \<open>max_idx hdr \<ge> 4294967293\<close> by force
        then show ?thesis using \<open>max_idx hdr \<in> S\<close> xm b by simp
      qed
    qed
    then have "insert x S = S" by auto
    then show ?thesis using t old assms(1) by auto
  next
    case inside
    show ?thesis
    proof (cases "x \<in> S")
      case True
      then have t: "testAdd hdr x = (False, hdr)" using inside vis by (simp add: testAdd_def)
      have "insert x S = S" using True by auto
      then show ?thesis using t True assms(1) by auto
    next
      case False
      let ?h = "hdr\<lparr>idx_visited := idx_visited hdr @ [x]\<rparr>"
      have t: "testAdd hdr x = (True, ?h)" using inside vis False by (simp add: testAdd_def)
      have "hdr_inv ?h (insert x S)"
        unfolding hdr_inv_def using vis mx mx0 mn mn0 bd assms(2) inside
        by (auto simp: not_less)
      then show ?thesis using t False by auto
    qed
  qed
qed

lemma testAdd_fst:
  assumes "hdr_inv hdr S" "x \<le> 4294967293"
  shows "fst (testAdd hdr x) = (x \<notin> S)"
  using testAdd_spec[OF assms] by auto

lemma testAdd_inv:
  assumes "hdr_inv hdr S" "x \<le> 4294967293"
  shows "hdr_inv (snd (testAdd hdr x)) (insert x S)"
  using testAdd_spec[OF assms] by auto

lemma testAdd_visited:
  assumes "hdr_inv hdr S" "x \<le> 4294967293"
  shows "idx_visited (snd (testAdd hdr x)) = (if x \<in> S then idx_visited hdr else idx_visited hdr @ [x])"
  using testAdd_spec[OF assms] by auto

lemma testAdd_seq_first_occurrence:
  assumes "hdr_inv hdr (set seen)" "idx_visited hdr = seen" "\<forall>x\<in>set ids. x \<le> 4294967293"
  shows "fst (testAdd_seq hdr ids) = fst (first_occurrence_seq seen ids) \<and>
         idx_visited (snd (testAdd_seq hdr ids)) = snd (first_occurrence_seq seen ids)"
  using assms
proof (induction ids arbitrary: hdr seen)
  case Nil
  then show ?case by simp
next
  case (Cons x xs)
  obtain b hdr1 where t: "testAdd hdr x = (b, hdr1)" by (cases "testAdd hdr x")
  have x: "x \<le> 4294967293" using Cons.prems by simp
  have b: "b = (x \<notin> set seen)" using testAdd_fst[OF Cons.prems(1) x] t by simp
  have i1: "hdr_inv hdr1 (insert x (set seen))" using testAdd_inv[OF Cons.prems(1) x] t by simp
  have v1: "idx_visited hdr1 = (if x \<in> set seen then seen else seen @ [x])"
    using testAdd_visited[OF Cons.prems(1) x] t Cons.prems(2) by simp
  let ?seen1 = "if x \<in> set seen then seen else seen @ [x]"
  have s1: "set ?seen1 = insert x (set seen)" by auto
  have "hdr_inv hdr1 (set ?seen1)" using i1 s1 by simp
  from Cons.IH[OF this v1] Cons.prems(3)
  have "fst (testAdd_seq hdr1 xs) = fst (first_occurrence_seq ?seen1 xs) \<and>
        idx_visited (snd (testAdd_seq hdr1 xs)) = snd (first_occurrence_seq ?seen1 xs)" by simp
  then show ?case using t b by (simp add: split_beta)
qed

lemma first_occurrence_length: "length (fst (first_occurrence_seq seen ids)) = length ids"
  by (induction ids arbitrary: seen) (auto simp: split_beta)

lemma first_occurrence_nth:
  "k < length ids \<Longrightarrow>
   fst (first_occurrence_seq seen ids) ! k = (ids ! k \<notin> set seen \<union> set (take k ids))"
proof (induction ids arbitrary: seen k)
  case Nil then show ?case by simp
next
  case (Cons x xs)
  show ?case
  proof (cases k)
    case 0 then show ?thesis by (simp add: split_beta)
  next
    case (Suc j)
    then have "j < length xs" using Cons.prems by simp
    from Cons.IH[OF this, of "if x \<in> set seen then seen else seen @ [x]"] Suc
    show ?thesis by (auto simp: split_beta)
  qed
qed

lemma first_occurrence_snd:
  "distinct seen \<Longrightarrow> distinct (snd (first_occurrence_seq seen ids)) \<and>
     set (snd (first_occurrence_seq seen ids)) = set seen \<union> set ids"
proof (induction ids arbitrary: seen)
  case Nil then show ?case by simp
next
  case (Cons x xs)
  let ?seen1 = "if x \<in> set seen then seen else seen @ [x]"
  have "distinct ?seen1" using Cons.prems by simp
  from Cons.IH[OF this] show ?case by (auto simp: split_beta)
qed

text \<open>
  Claim C6. On a fresh header, a sequence of \<open>testAdd\<close> calls with identities below
  4294967293 answers true at call \<open>k\<close> exactly when the identity does not occur among the
  earlier ones, and records each identity once; the answers and the recorded list are
  those of the plain first-occurrence test.
\<close>

theorem testAdd_first_occurrence:
  assumes "\<forall>x\<in>set ids. x < 4294967293"
  shows "length (fst (testAdd_seq new_header ids)) = length ids \<and>
         (\<forall>k<length ids. fst (testAdd_seq new_header ids) ! k = (ids ! k \<notin> set (take k ids))) \<and>
         fst (testAdd_seq new_header ids) = fst (first_occurrence_seq [] ids) \<and>
         idx_visited (snd (testAdd_seq new_header ids)) = snd (first_occurrence_seq [] ids) \<and>
         distinct (idx_visited (snd (testAdd_seq new_header ids))) \<and>
         set (idx_visited (snd (testAdd_seq new_header ids))) = set ids"
proof -
  have le: "\<forall>x\<in>set ids. x \<le> 4294967293" using assms by auto
  have inv: "hdr_inv new_header (set [])" using hdr_inv_new by simp
  have vis: "idx_visited new_header = []" by (simp add: new_header_def)
  note eq = testAdd_seq_first_occurrence[OF inv vis le]
  have "\<forall>k<length ids. fst (first_occurrence_seq [] ids) ! k = (ids ! k \<notin> set (take k ids))"
    using first_occurrence_nth[of _ ids "[]"] by simp
  moreover have "distinct (snd (first_occurrence_seq [] ids)) \<and>
      set (snd (first_occurrence_seq [] ids)) = set ids"
    using first_occurrence_snd[of "[]" ids] by simp
  ultimately show ?thesis using eq first_occurrence_length[of "[]" ids] by simp
qed

text \<open>Witness for C6: the identities 5, 3, 5, 4, 3.\<close>

theorem testAdd_first_occurrence_witness:
  "list_all (\<lambda>x. x < 4294967293) [5, 3, 5, 4, 3 :: u32] \<and>
   fst (testAdd_seq new_header [5, 3, 5, 4, 3]) = fst (first_occurrence_seq [] [5, 3, 5, 4, 3]) \<and>
   fst (first_occurrence_seq [] [5, 3, 5, 4, 3 :: u32]) = [True, True, False, True, False] \<and>
   idx_visited (snd (testAdd_seq new_header [5, 3, 5, 4, 3])) = [5, 3, 4]"
proof -
  have h: "\<forall>x\<in>set [5, 3, 5, 4, 3 :: u32]. x < 4294967293" by simp
  show ?thesis using h testAdd_first_occurrence[OF h] by simp
qed

subsection \<open>Establishing and severing a connection\<close>

lemma at_nth [simp]: "i < length xs \<Longrightarrow> at xs i = Inr (xs ! i)"
  by (simp add: at_def)

lemma erase_last [simp]: "erase (xs @ [x]) (length xs) = xs"
  by (simp add: erase_def)

text \<open>The loop once the outbound entry is gone: it runs on to the inbound entry.\<close>

lemma sever_loop_ext_done:
  assumes "Some a \<notin> set ys" "length xs < i" "i \<le> length ys"
  shows "sever_loop (Suc (length xs)) (Suc (length ys)) (Suc (length ys)) (Some a) (Some b) i
           xs (ys @ [Some a]) True False = Inr (xs, ys)"
  using assms
proof (induction "length ys - i" arbitrary: i)
  case 0
  then have "i = length ys" by simp
  then show ?case using 0 by (subst sever_loop.simps) simp
next
  case (Suc k)
  then have lt: "i < length ys" by simp
  then have ne: "ys ! i \<noteq> Some a" using Suc.prems(1) by (metis nth_mem)
  have "sever_loop (Suc (length xs)) (Suc (length ys)) (Suc (length ys)) (Some a) (Some b) (Suc i)
           xs (ys @ [Some a]) True False = Inr (xs, ys)"
    using Suc by (intro Suc.hyps(1)) auto
  then show ?case using lt ne Suc.prems by (subst sever_loop.simps) (simp add: nth_append)
qed

lemma sever_loop_int_done:
  assumes "Some b \<notin> set xs" "length ys < i" "i \<le> length xs"
  shows "sever_loop (Suc (length xs)) (Suc (length ys)) (Suc (length xs)) (Some a) (Some b) i
           (xs @ [Some b]) ys False True = Inr (xs, ys)"
  using assms
proof (induction "length xs - i" arbitrary: i)
  case 0
  then have "i = length xs" by simp
  then show ?case using 0 by (subst sever_loop.simps) simp
next
  case (Suc k)
  then have lt: "i < length xs" by simp
  then have ne: "xs ! i \<noteq> Some b" using Suc.prems(1) by (metis nth_mem)
  have "sever_loop (Suc (length xs)) (Suc (length ys)) (Suc (length xs)) (Some a) (Some b) (Suc i)
           (xs @ [Some b]) ys False True = Inr (xs, ys)"
    using Suc by (intro Suc.hyps(1)) auto
  then show ?case using lt ne Suc.prems by (subst sever_loop.simps) (simp add: nth_append)
qed

lemma sever_loop_last:
  assumes "Some b \<notin> set xs" "Some a \<notin> set ys" "i \<le> length xs" "i \<le> length ys"
  shows "sever_loop (Suc (length xs)) (Suc (length ys)) (Suc (max (length xs) (length ys)))
           (Some a) (Some b) i (xs @ [Some b]) (ys @ [Some a]) False False = Inr (xs, ys)"
  using assms
proof (induction "min (length xs) (length ys) - i" arbitrary: i)
  case 0
  then have i: "i = length xs \<or> i = length ys" by auto
  show ?case
  proof (cases "length xs = length ys")
    case True
    then have ii: "i = length xs" using i by simp
    have "(xs @ [Some b]) ! length ys = Some b" "(ys @ [Some a]) ! length xs = Some a"
      using True by (simp_all add: nth_append)
    moreover have "erase (xs @ [Some b]) (length ys) = xs" "erase (ys @ [Some a]) (length xs) = ys"
      using True by (simp_all add: erase_def)
    ultimately show ?thesis unfolding ii using True
      by (subst sever_loop.simps) (simp add: Let_def)
  next
    case False
    show ?thesis
    proof (cases "length xs < length ys")
      case True
      then have ix: "i = length xs" using i 0 by auto
      have ne: "ys ! i \<noteq> Some a" using True ix 0 by (metis nth_mem)
      have m: "max (length xs) (length ys) = length ys" using True by simp
      have "sever_loop (Suc (length xs)) (Suc (length ys)) (Suc (length ys)) (Some a) (Some b) (Suc i)
           xs (ys @ [Some a]) True False = Inr (xs, ys)"
        using True ix 0 by (intro sever_loop_ext_done) auto
      then show ?thesis using True ix ne m by (subst sever_loop.simps) (simp add: nth_append)
    next
      case F2: False
      then have lt: "length ys < length xs" using False by simp
      then have iy: "i = length ys" using i 0 by auto
      have ne: "xs ! i \<noteq> Some b" using lt iy 0 by (metis nth_mem)
      have m: "max (length xs) (length ys) = length xs" using lt by simp
      have "sever_loop (Suc (length xs)) (Suc (length ys)) (Suc (length xs)) (Some a) (Some b) (Suc i)
           (xs @ [Some b]) ys False True = Inr (xs, ys)"
        using lt iy 0 by (intro sever_loop_int_done) auto
      then show ?thesis using lt iy ne m by (subst sever_loop.simps) (simp add: nth_append)
    qed
  qed
next
  case (Suc k)
  then have lx: "i < length xs" and ly: "i < length ys" by auto
  have nx: "xs ! i \<noteq> Some b" using lx Suc.prems by (metis nth_mem)
  have ny: "ys ! i \<noteq> Some a" using ly Suc.prems by (metis nth_mem)
  have "sever_loop (Suc (length xs)) (Suc (length ys)) (Suc (max (length xs) (length ys)))
           (Some a) (Some b) (Suc i) (xs @ [Some b]) (ys @ [Some a]) False False = Inr (xs, ys)"
    using Suc lx ly by (intro Suc.hyps(1)) auto
  then show ?case using lx ly nx ny by (subst sever_loop.simps) (simp add: nth_append)
qed

text \<open>
  Claim C7, amended. For distinct nodes \<open>A\<close> and \<open>B\<close> of the heap with no connection
  from \<open>A\<close> to \<open>B\<close> yet (\<open>B\<close> not in \<open>A\<close>'s outbound list, \<open>A\<close> not in \<open>B\<close>'s
  inbound list), \<open>A.establishCnt(B)\<close> followed at once by \<open>A.severCnt(B)\<close> returns, and
  leaves the whole heap, every list of every node in its order, as it was.
\<close>

theorem establish_sever_inverse:
  assumes "a < length h" "b < length h" "a \<noteq> b"
    and "Some b \<notin> set (cnt_out (h ! a))" "Some a \<notin> set (cnt_in (h ! b))"
  shows "establish_sever h a b = Inr (h, length (cnt_out (h ! a)))"
proof (cases "index (h ! b) = index (h ! a)")
  case True
  then show ?thesis using assms
    by (simp add: establish_sever_def establishCnt_def severCnt_def deref_def)
next
  case False
  let ?xs = "cnt_out (h ! a)" and ?ys = "cnt_in (h ! b)"
  have mx: "(if length ?ys < length ?xs then Suc (length ?xs) else Suc (length ?ys))
              = Suc (max (length ?xs) (length ?ys))" by auto
  have sl: "sever_loop (Suc (length ?xs)) (Suc (length ?ys)) (Suc (max (length ?xs) (length ?ys)))
           (Some a) (Some b) 0 (?xs @ [Some b]) (?ys @ [Some a]) False False = Inr (?xs, ?ys)"
    using assms by (intro sever_loop_last) auto
  show ?thesis using assms False sl
    by (simp add: establish_sever_def establishCnt_def severCnt_def deref_def Let_def mx
        list_update_swap[of a b])
qed

text \<open>Witness for C7: node 1 already points to node 3 and gains, then loses, node 2.\<close>

theorem establish_sever_inverse_witness:
  "(0::nat) < length [node_of 1 [Some 2] [], node_of 2 [] [], node_of 3 [] [Some 0]] \<and>
   (1::nat) < length [node_of 1 [Some 2] [], node_of 2 [] [], node_of 3 [] [Some 0]] \<and>
   (0::nat) \<noteq> 1 \<and>
   Some 1 \<notin> set (cnt_out ([node_of 1 [Some 2] [], node_of 2 [] [], node_of 3 [] [Some 0]] ! 0)) \<and>
   Some 0 \<notin> set (cnt_in ([node_of 1 [Some 2] [], node_of 2 [] [], node_of 3 [] [Some 0]] ! 1)) \<and>
   establish_sever [node_of 1 [Some 2] [], node_of 2 [] [], node_of 3 [] [Some 0]] 0 1
     = Inr ([node_of 1 [Some 2] [], node_of 2 [] [], node_of 3 [] [Some 0]], 1)"
  using establish_sever_inverse[of 0 "[node_of 1 [Some 2] [], node_of 2 [] [], node_of 3 [] [Some 0]]" 1]
  by (simp add: node_of_def)

text \<open>
  Counterexample to C7 as stated: node 1 (address 0) already has the outbound list
  \<open>[2, 3]\<close>; after \<open>establishCnt\<close> and \<open>severCnt\<close> of node 2 its list is \<open>[3, 2]\<close>,
  because the first instance is the one removed.
\<close>

theorem establish_sever_reorders:
  "establish_sever [node_of 1 [Some 1, Some 2] [], node_of 2 [] [Some 0], node_of 3 [] [Some 0]] 0 1
     = Inr ([node_of 1 [Some 2, Some 1] [], node_of 2 [] [Some 0], node_of 3 [] [Some 0]], 2) \<and>
   [node_of 1 [Some 2, Some 1] [], node_of 2 [] [Some 0], node_of 3 [] [Some 0]]
     \<noteq> [node_of 1 [Some 1, Some 2] [], node_of 2 [] [Some 0], node_of 3 [] [Some 0]]"
  by code_simp

subsection \<open>Failing inputs\<close>

text \<open>
  Claim C3, at a failing input. Node 1 (address 0) has the outbound list \<open>[2, 4, 2]\<close>
  and node 2 (address 1) the inbound list \<open>[3, 1, 1]\<close>: \<open>severCnt\<close> of node 2 on node 1
  removes both instances of node 2 from the outbound list and one instance of node 1
  from the inbound list. With the outbound list \<open>[2, 4]\<close> and the inbound list
  \<open>[3, 1]\<close> it throws out of \<open>vector::at\<close>.
\<close>

theorem severCnt_removes_later_duplicate:
  "severCnt [node_of 1 [Some 1, Some 3, Some 1] [], node_of 2 [] [Some 2, Some 0, Some 0],
             node_of 3 [Some 1] [], node_of 4 [] [Some 0]] 0 (Some 1)
     = Inr ([node_of 1 [Some 3] [], node_of 2 [] [Some 2, Some 0],
             node_of 3 [Some 1] [], node_of 4 [] [Some 0]], 1) \<and>
   severCnt [node_of 1 [Some 1, Some 3] [], node_of 2 [] [Some 2, Some 0],
             node_of 3 [Some 1] [], node_of 4 [] [Some 0]] 0 (Some 1)
     = Inl OutOfRange"
  by code_simp

text \<open>
  Claim C1, at a failing input. On the graph built from \<open>{(1,2),(1,2),(1,3)}\<close> the first
  \<open>optimizeCnts()\<close> returns 3, keeps both descriptors \<open>1\<rightarrow>2\<close> and severs nothing; with the
  priority function the three descriptors get the priorities 1, 1 and 2.
\<close>

theorem optimizeCnts_keeps_adjacent_duplicate:
  "(case new_graph () [] [cnt 1 2, cnt 1 2, cnt 1 3] of Inl e \<Rightarrow> Inl e
    | Inr (h, g) \<Rightarrow> optimizeCnts h g)
     = Inr ([node_of 1 [Some 1, Some 1, Some 2] [], node_of 2 [] [Some 0, Some 0],
             node_of 3 [] [Some 0]],
            \<lparr>raw_ptrs = [Some 0, Some 1, Some 2], calc_cnts = [cnt 1 2, cnt 1 2, cnt 1 3],
             degrees = [3, 0, 0], indexes = [1, 2, 3], count = 3\<rparr>, 3) \<and>
   (case new_graph () [] [cnt 1 2, cnt 1 2, cnt 1 3] of Inl e \<Rightarrow> Inl e
    | Inr (h, g) \<Rightarrow>
       (case optimizeCnts_prio testPrioFunc h g of Inl e \<Rightarrow> Inl e
        | Inr (h1, g1, n) \<Rightarrow> Inr (map priority (calc_cnts g1), n)))
     = Inr ([1, 1, 2], 3)"
  by code_simp

text \<open>
  Claim C4, at a failing input. The graph is built from \<open>{(3,2),(1,2),(1,4),(1,2)}\<close>;
  node 1 is at address 2 and node 2 at address 1. After \<open>severCnt\<close> of node 2 on node 1,
  node 2 occurs no more in the outbound list of node 1, but node 1 still occurs once in
  the inbound list of node 2.
\<close>

theorem severCnt_breaks_symmetry:
  "(case new_graph () [] [cnt 3 2, cnt 1 2, cnt 1 4, cnt 1 2] of Inl e \<Rightarrow> None
    | Inr (h, g) \<Rightarrow>
       (case severCnt h 2 (Some 1) of Inl e \<Rightarrow> None
        | Inr (h1, n) \<Rightarrow>
           Some (count_list (cnt_out (h1 ! 2)) (Some 1), count_list (cnt_in (h1 ! 1)) (Some 2),
                 Some 1 \<in> set (cnt_out (h1 ! 2)), Some 2 \<in> set (cnt_in (h1 ! 1)))))
     = Some (0, 1, False, True)"
  by code_simp

text \<open>
  Claim C2, at a failing input. On the graph built from \<open>{(1,2)}\<close>, with a filter that
  rejects everything, the filtered depth-first traversal from identity 1 returns the
  start node (address 0).
\<close>

theorem filtered_dfs_keeps_rejected_root:
  "(case new_graph () [] [cnt 1 2] of Inl e \<Rightarrow> None
    | Inr (h, g) \<Rightarrow> runDepthFirst_Filt 3 h g 1 (\<lambda>previous current. False))
     = Some (Inr [Some 0])"
  by code_simp

text \<open>
  Claim C9, at a failing input. A node whose outbound list holds an absent reference:
  the depth-first traversal dereferences it, where the breadth-first traversal skips it.
\<close>

theorem dfs_dereferences_absent_neighbour:
  "devTraverseDfs 2 [node_of 1 [None] []] (Some 0) None = Some (Inl NullDeref) \<and>
   devTraverseDfs_Filt 2 [node_of 1 [None] []] (Some 0) (\<lambda>previous current. True) None
     = Some (Inl NullDeref) \<and>
   map_option (map_sum id fst) (devTraverseBfs 3 [node_of 1 [None] []] (Some 0) None)
     = Some (Inr [Some 0])"
  by code_simp

subsection \<open>No operation inserts an absent reference\<close>

lemma present_Some [simp]: "present h (Some a) \<longleftrightarrow> a < length h"
  by (simp add: present_def)

lemma present_None [simp]: "\<not> present h None"
  by (simp add: present_def)

lemma deref_present [simp]: "a < length h \<Longrightarrow> deref h (Some a) = Inr (h ! a)"
  by (simp add: deref_def)

lemma deref_Inr: "deref h p = Inr n \<Longrightarrow> \<exists>a. p = Some a \<and> a < length h \<and> n = h ! a"
  by (auto simp: deref_def split: option.splits if_splits)

lemma heap_present_update:
  assumes "heap_present h" "a < length h"
    and "\<forall>p\<in>set (cnt_out n). present h p" "\<forall>p\<in>set (cnt_in n). present h p"
  shows "heap_present (h[a := n])"
  using assms unfolding heap_present_def present_def
  by (auto dest!: set_update_subset_insert[THEN subsetD] split: option.splits)

lemma heap_present_nth:
  "heap_present h \<Longrightarrow> a < length h \<Longrightarrow>
     (\<forall>p\<in>set (cnt_out (h ! a)). present h p) \<and> (\<forall>p\<in>set (cnt_in (h ! a)). present h p)"
  unfolding heap_present_def by (meson nth_mem)

lemma present_update [simp]: "present (h[a := n]) p = present h p"
  by (cases p) (simp_all add: present_def)

lemma establishCnt_present:
  assumes "heap_present h" "establishCnt h a other = Inr (h1, n)"
  shows "heap_present h1"
proof -
  from assms(2) have a: "a < length h"
    by (auto simp: establishCnt_def deref_def split: if_splits sum.splits)
  show ?thesis
  proof (cases other)
    case None
    then show ?thesis using assms a by (simp add: establishCnt_def deref_def)
  next
    case (Some b)
    then have b: "b < length h" using assms(2) a
      by (auto simp: establishCnt_def deref_def split: if_splits sum.splits)
    show ?thesis
    proof (cases "index (h ! b) \<noteq> index (h ! a)")
      case False
      then show ?thesis using assms a b Some by (simp add: establishCnt_def deref_def)
    next
      case True
      let ?h1 = "h[a := (h ! a)\<lparr>cnt_out := cnt_out (h ! a) @ [Some b]\<rparr>]"
      have p1: "heap_present ?h1"
        using heap_present_nth[OF assms(1) a] a b
        by (intro heap_present_update[OF assms(1) a]) auto
      have ab: "a \<noteq> b" using True by auto
      have "heap_present (?h1[b := (?h1 ! b)\<lparr>cnt_in := cnt_in (?h1 ! b) @ [Some a]\<rparr>])"
        using heap_present_nth[OF p1, of b] a b
        by (intro heap_present_update[OF p1]) auto
      then show ?thesis using assms(2) a b Some True
        by (simp add: establishCnt_def deref_def Let_def)
    qed
  qed
qed

lemma set_erase: "set (erase xs i) \<subseteq> set xs"
  unfolding erase_def by (auto dest: in_set_takeD in_set_dropD)

lemma sever_loop_step:
  assumes "i < maxidx" "(if i < extnum then at out i else Inr None) = Inr tmpExt"
    "(if i < intnum then at inn i else Inr None) = Inr tmpInt"
  shows "sever_loop extnum intnum maxidx this other i out inn gotExt gotInt =
    (if (tmpExt = other \<or> gotExt) \<and> (tmpInt = this \<or> gotInt)
     then Inr (if tmpExt = other then erase out i else out, if tmpInt = this then erase inn i else inn)
     else sever_loop extnum intnum maxidx this other (Suc i)
            (if tmpExt = other then erase out i else out) (if tmpInt = this then erase inn i else inn)
            (tmpExt = other \<or> gotExt) (tmpInt = this \<or> gotInt))"
  using assms by (subst sever_loop.simps) (simp add: Let_def)

lemma sever_loop_subset:
  "sever_loop extnum intnum maxidx this other i out inn gotExt gotInt = Inr (out1, inn1)
    \<Longrightarrow> set out1 \<subseteq> set out \<and> set inn1 \<subseteq> set inn"
proof (induction extnum intnum maxidx this other i out inn gotExt gotInt rule: sever_loop.induct)
  case (1 extnum intnum maxidx this other i out inn gotExt gotInt)
  show ?case
  proof (cases "i < maxidx")
    case False
    then show ?thesis using "1.prems" by (subst (asm) sever_loop.simps) simp
  next
    case True
    obtain tmpExt where te: "(if i < extnum then at out i else Inr None) = Inr tmpExt"
      using "1.prems" True by (subst (asm) sever_loop.simps) (auto split: sum.splits)
    obtain tmpInt where ti: "(if i < intnum then at inn i else Inr None) = Inr tmpInt"
      using "1.prems" True te by (subst (asm) sever_loop.simps) (auto split: sum.splits)
    let ?out1 = "if tmpExt = other then erase out i else out"
    let ?inn1 = "if tmpInt = this then erase inn i else inn"
    let ?ge = "tmpExt = other \<or> gotExt" and ?gi = "tmpInt = this \<or> gotInt"
    have sub: "set ?out1 \<subseteq> set out" "set ?inn1 \<subseteq> set inn"
      using set_erase[of out i] set_erase[of inn i] by auto
    note step = sever_loop_step[OF True te ti, of this other gotExt gotInt]
    show ?thesis
    proof (cases "?ge \<and> ?gi")
      case T: True
      have "sever_loop extnum intnum maxidx this other i out inn gotExt gotInt = Inr (?out1, ?inn1)"
        unfolding step using T by (rule if_P)
      then have "out1 = ?out1 \<and> inn1 = ?inn1" using "1.prems" by simp
      then show ?thesis using sub by blast
    next
      case F: False
      have "sever_loop extnum intnum maxidx this other i out inn gotExt gotInt
            = sever_loop extnum intnum maxidx this other (Suc i) ?out1 ?inn1 ?ge ?gi"
        unfolding step using F by (rule if_not_P)
      then have rec: "sever_loop extnum intnum maxidx this other (Suc i) ?out1 ?inn1 ?ge ?gi = Inr (out1, inn1)"
        using "1.prems" by simp
      have "set out1 \<subseteq> set ?out1 \<and> set inn1 \<subseteq> set ?inn1"
        by (rule "1.IH"[OF True te ti refl refl refl refl F rec])
      then show ?thesis using sub by blast
    qed
  qed
qed

lemma severCnt_present:
  assumes "heap_present h" "severCnt h a other = Inr (h1, n)"
  shows "heap_present h1"
proof -
  from assms(2) have a: "a < length h"
    by (auto simp: severCnt_def deref_def split: if_splits sum.splits)
  show ?thesis
  proof (cases other)
    case None
    then show ?thesis using assms a by (simp add: severCnt_def deref_def)
  next
    case (Some b)
    then have b: "b < length h" using assms(2) a
      by (auto simp: severCnt_def deref_def Let_def split: if_splits sum.splits)
    show ?thesis
    proof (cases "index (h ! b) = index (h ! a)")
      case True
      then show ?thesis using assms a b Some by (simp add: severCnt_def deref_def)
    next
      case False
      let ?ext = "length (cnt_out (h ! a))" and ?int = "length (cnt_in (h ! b))"
      obtain out1 inn1 where sl: "sever_loop ?ext ?int (if ?ext > ?int then ?ext else ?int)
          (Some a) (Some b) 0 (cnt_out (h ! a)) (cnt_in (h ! b)) False False = Inr (out1, inn1)"
        using assms(2) a b Some False
        by (auto simp: severCnt_def deref_def Let_def split: sum.splits)
      note sub = sever_loop_subset[OF sl]
      let ?h1 = "h[a := (h ! a)\<lparr>cnt_out := out1\<rparr>]"
      have p1: "heap_present ?h1"
        using heap_present_nth[OF assms(1) a] a sub
        by (intro heap_present_update[OF assms(1) a]) auto
      have ab: "a \<noteq> b" using False by auto
      have "heap_present (?h1[b := (?h1 ! b)\<lparr>cnt_in := inn1\<rparr>])"
        using heap_present_nth[OF p1, of b] heap_present_nth[OF assms(1) b] a b ab sub
        by (intro heap_present_update[OF p1]) auto
      then show ?thesis using assms(2) a b Some False sl
        by (simp add: severCnt_def deref_def Let_def)
    qed
  qed
qed

lemma set_erase_first: "set (erase_first x xs) \<subseteq> set xs"
  by (induction xs) auto

lemma severCnt_at_present:
  assumes "heap_present h" "severCnt_at h a pos = Inr (h1, n)"
  shows "heap_present h1"
proof -
  from assms(2) have a: "a < length h"
    by (auto simp: severCnt_at_def deref_def split: if_splits sum.splits)
  show ?thesis
  proof (cases "pos \<ge> length (cnt_out (h ! a))")
    case True
    then show ?thesis using assms a by (simp add: severCnt_at_def deref_def)
  next
    case False
    obtain b where b: "cnt_out (h ! a) ! pos = Some b" "b < length h"
      using assms(2) a False
      by (auto simp: severCnt_at_def deref_def Let_def split: sum.splits option.splits if_splits)
    let ?h1 = "h[b := (h ! b)\<lparr>cnt_in := erase_first (Some a) (cnt_in (h ! b))\<rparr>]"
    have p1: "heap_present ?h1"
      using heap_present_nth[OF assms(1) b(2)] b set_erase_first[of "Some a" "cnt_in (h ! b)"]
      by (intro heap_present_update[OF assms(1) b(2)]) auto
    have "heap_present (?h1[a := (?h1 ! a)\<lparr>cnt_out := erase (cnt_out (?h1 ! a)) pos\<rparr>])"
      using heap_present_nth[OF p1, of a] a set_erase[of "cnt_out (?h1 ! a)" pos]
      by (intro heap_present_update[OF p1]) auto
    then show ?thesis using assms(2) a b False
      by (simp add: severCnt_at_def deref_def Let_def)
  qed
qed


lemma heap_present_Nil: "heap_present []"
  by (simp add: heap_present_def)

lemma heap_present_new:
  assumes "heap_present h"
  shows "heap_present (h @ [new_node ident val])"
proof -
  have "present (h @ [new_node ident val]) p" if "present h p" for p
    using that by (cases p) (auto simp: present_def)
  then show ?thesis using assms unfolding heap_present_def
    by (auto simp: new_node_def)
qed

lemma resolve_or_create_present:
  assumes "heap_present h" "resolve_or_create prefill h g ident = (h1, g1, i)"
  shows "heap_present h1"
  using assms heap_present_new[OF assms(1)]
  by (auto simp: resolve_or_create_def Let_def split: if_splits)

lemma construct_loop_present:
  assumes "heap_present h" "construct_loop prefill h g cl = Inr (h1, g1)"
  shows "heap_present h1"
  using assms
proof (induction cl arbitrary: h g)
  case Nil
  then show ?case by simp
next
  case (Cons TMP rest)
  obtain ha ga i where r1: "resolve_or_create prefill h g (cnt_from TMP) = (ha, ga, i)"
    by (cases "resolve_or_create prefill h g (cnt_from TMP)") auto
  obtain hb gb j where r2: "resolve_or_create prefill ha ga (cnt_to TMP) = (hb, gb, j)"
    by (cases "resolve_or_create prefill ha ga (cnt_to TMP)") auto
  have pb: "heap_present hb"
    using resolve_or_create_present[OF resolve_or_create_present[OF Cons.prems(1) r1] r2] .
  from Cons.prems(2) r1 r2 obtain a pj hc n where
    e: "establishCnt hb a pj = Inr (hc, n)" and
    rest: "(if i \<ge> 4294967290 \<or> j \<ge> 4294967290
            then Inr (hc, gb\<lparr>calc_cnts := calc_cnts gb @ [TMP]\<rparr>)
            else construct_loop prefill hc (gb\<lparr>calc_cnts := calc_cnts gb @ [TMP]\<rparr>) rest) = Inr (h1, g1)"
    by (auto simp: Let_def split: sum.splits option.splits prod.splits)
  have pc: "heap_present hc" using establishCnt_present[OF pb e] .
  show ?case
  proof (cases "i \<ge> 4294967290 \<or> j \<ge> 4294967290")
    case True
    then show ?thesis using rest pc by simp
  next
    case False
    then show ?thesis using rest Cons.IH[OF pc] by simp
  qed
qed

lemma new_graph_present:
  assumes "new_graph prefill [] cl = Inr (h, g)"
  shows "heap_present h"
  using assms construct_loop_present[OF heap_present_Nil]
  by (auto simp: new_graph_def split: sum.splits prod.splits)

lemma sever_all_present:
  assumes "heap_present h" "sever_all h a ds = Inr h1"
  shows "heap_present h1"
  using assms
proof (induction ds arbitrary: h)
  case Nil
  then show ?case by simp
next
  case (Cons d ds)
  then show ?case
    by (auto split: sum.splits prod.splits) (blast intro: severCnt_present)
qed

lemma optimize_loop_present:
  assumes "heap_present h" "optimize_loop prioFunc h raw is cnts = Inr (h1, cnts1)"
  shows "heap_present h1"
  using assms
proof (induction "is" arbitrary: h cnts)
  case Nil
  then show ?case by simp
next
  case (Cons i "is")
  then show ?case
    by (auto split: sum.splits prod.splits) (blast intro: sever_all_present)
qed

lemma optimizeCnts_prio_present:
  assumes "heap_present h" "optimizeCnts_prio prioFunc h g = Inr (h1, g1, n)"
  shows "heap_present h1"
  using assms optimize_loop_present
  by (auto simp: optimizeCnts_prio_def split: sum.splits prod.splits)

lemma reachable_present:
  assumes "reachable h g"
  shows "heap_present h"
  using assms
proof (induction rule: reachable.induct)
  case (constructed prefill connectionList h g)
  then show ?case by (rule new_graph_present)
next
  case (created h g ident val)
  then show ?case by (simp add: heap_present_new)
next
  case (established h g a other h1 n)
  then show ?case using establishCnt_present by blast
next
  case (severed h g a other h1 n)
  then show ?case using severCnt_present by blast
next
  case (severed_at h g a pos h1 n)
  then show ?case using severCnt_at_present by blast
next
  case (optimized h g h1 g1 n)
  then show ?case using optimizeCnts_prio_present unfolding optimizeCnts_def by blast
next
  case (optimized_prio h g prioFunc h1 g1 n)
  then show ?case using optimizeCnts_prio_present by blast
qed

text \<open>On a heap of present references the depth-first traversals dereference no absent one.\<close>

lemma dfs_no_fault:
  assumes hp: "heap_present h"
  shows "(\<forall>start rh e. start = None \<or> present h start \<longrightarrow> devTraverseDfs n h start rh \<noteq> Some (Inl e)) \<and>
         (\<forall>ps hdr out e. (\<forall>p\<in>set ps. present h p) \<longrightarrow> dfs_for n h ps hdr out \<noteq> Some (Inl e))"
proof (induction n)
  case 0
  have F: "dfs_for 0 h ps hdr out \<noteq> Some (Inl e)" if "\<forall>p\<in>set ps. present h p" for ps hdr out e
    using that
  proof (induction ps arbitrary: hdr out)
    case Nil
    then show ?case by simp
  next
    case (Cons p ps)
    then obtain b where p: "p = Some b" "b < length h" by (cases p) auto
    obtain t hdr1 where t: "testAdd hdr (index (h ! b)) = (t, hdr1)"
      by (cases "testAdd hdr (index (h ! b))")
    show ?case using Cons p t by (cases t) auto
  qed
  then show ?case by simp
next
  case (Suc n)
  then have IHF: "\<And>ps hdr out e. \<forall>p\<in>set ps. present h p \<Longrightarrow> dfs_for n h ps hdr out \<noteq> Some (Inl e)"
    by blast
  have D: "devTraverseDfs (Suc n) h start rh \<noteq> Some (Inl e)"
    if "start = None \<or> present h start" for start rh e
  proof (cases start)
    case None
    then show ?thesis by simp
  next
    case (Some a)
    then have a: "a < length h" using that by simp
    obtain t hdr1 where t: "testAdd (header_of rh) (index (h ! a)) = (t, hdr1)"
      by (cases "testAdd (header_of rh) (index (h ! a))")
    have "\<forall>p\<in>set (cnt_out (h ! a)). present h p" using heap_present_nth[OF hp a] by blast
    from IHF[OF this] show ?thesis using Some a t by simp
  qed
  have F: "dfs_for (Suc n) h ps hdr out \<noteq> Some (Inl e)" if "\<forall>p\<in>set ps. present h p" for ps hdr out e
    using that
  proof (induction ps arbitrary: hdr out)
    case Nil
    then show ?case by simp
  next
    case (Cons p ps)
    then obtain b where p: "p = Some b" "b < length h" by (cases p) auto
    obtain t hdr1 where t: "testAdd hdr (index (h ! b)) = (t, hdr1)"
      by (cases "testAdd hdr (index (h ! b))")
    have pp: "present h p" using p by simp
    show ?case
    proof (cases t)
      case False
      then show ?thesis using Cons p t by auto
    next
      case True
      show ?thesis
      proof (cases "devTraverseDfs (Suc n) h p (Some hdr1)")
        case None
        then show ?thesis using p t True by simp
      next
        case (Some r)
        then obtain dq hdr2 where r: "r = Inr (dq, hdr2)"
          using D[of p "Some hdr1"] pp by (cases r) auto
        show ?thesis using Cons p t True Some r by auto
      qed
    qed
  qed
  show ?case using D F by blast
qed


lemma dfs_filt_no_fault:
  assumes hp: "heap_present h"
  shows "(\<forall>start rh e. start = None \<or> present h start \<longrightarrow>
            devTraverseDfs_Filt n h start searchFunc rh \<noteq> Some (Inl e)) \<and>
         (\<forall>start ps hdr out e. (\<forall>p\<in>set ps. present h p) \<longrightarrow>
            dfs_filt_for n h start searchFunc ps hdr out \<noteq> Some (Inl e))"
proof (induction n)
  case 0
  have F: "dfs_filt_for 0 h start searchFunc ps hdr out \<noteq> Some (Inl e)" if "\<forall>p\<in>set ps. present h p" for start ps hdr out e
    using that
  proof (induction ps arbitrary: hdr out)
    case Nil
    then show ?case by simp
  next
    case (Cons p ps)
    then obtain b where p: "p = Some b" "b < length h" by (cases p) auto
    obtain t hdr1 where t: "testAdd hdr (index (h ! b)) = (t, hdr1)"
      by (cases "testAdd hdr (index (h ! b))")
    show ?case using Cons p t by (cases t) auto
  qed
  then show ?case by simp
next
  case (Suc n)
  then have IHF: "\<And>start ps hdr out e. \<forall>p\<in>set ps. present h p \<Longrightarrow> dfs_filt_for n h start searchFunc ps hdr out \<noteq> Some (Inl e)"
    by blast
  have D: "devTraverseDfs_Filt (Suc n) h start searchFunc rh \<noteq> Some (Inl e)"
    if "start = None \<or> present h start" for start rh e
  proof (cases start)
    case None
    then show ?thesis by simp
  next
    case (Some a)
    then have a: "a < length h" using that by simp
    obtain t hdr1 where t: "testAdd (header_of rh) (index (h ! a)) = (t, hdr1)"
      by (cases "testAdd (header_of rh) (index (h ! a))")
    have "\<forall>p\<in>set (cnt_out (h ! a)). present h p" using heap_present_nth[OF hp a] by blast
    from IHF[OF this] show ?thesis using Some a t by simp
  qed
  have F: "dfs_filt_for (Suc n) h start searchFunc ps hdr out \<noteq> Some (Inl e)" if "\<forall>p\<in>set ps. present h p" for start ps hdr out e
    using that
  proof (induction ps arbitrary: hdr out)
    case Nil
    then show ?case by simp
  next
    case (Cons p ps)
    then obtain b where p: "p = Some b" "b < length h" by (cases p) auto
    obtain t hdr1 where t: "testAdd hdr (index (h ! b)) = (t, hdr1)"
      by (cases "testAdd hdr (index (h ! b))")
    have pp: "present h p" using p by simp
    show ?case
    proof (cases t)
      case False
      then show ?thesis using Cons p t by auto
    next
      case True
      show ?thesis
      proof (cases "devTraverseDfs_Filt (Suc n) h p searchFunc (Some hdr1)")
        case None
        then show ?thesis using p t True by simp
      next
        case (Some r)
        then obtain dq hdr2 where r: "r = Inr (dq, hdr2)"
          using D[of p "Some hdr1"] pp by (cases r) auto
        show ?thesis using Cons p t True Some r by auto
      qed
    qed
  qed
  show ?case using D F by blast
qed

text \<open>
  Claim C10. In every state that graph construction from a descriptor list,
  \<open>establishCnt\<close>, both \<open>severCnt\<close> and both \<open>optimizeCnts\<close> produce, every entry
  of every outbound and inbound list is a present reference: not \<open>nullptr\<close>, and the
  address of a node of the heap. So the depth-first traversals, plain and filtered,
  which read \<open>node->index\<close> of every neighbour unchecked, never fault there.
\<close>

theorem adjacency_lists_present:
  assumes "reachable h g"
  shows "heap_present h \<and>
         (\<forall>fuel a rh e. a < length h \<longrightarrow> devTraverseDfs fuel h (Some a) rh \<noteq> Some (Inl e)) \<and>
         (\<forall>fuel a searchFunc rh e. a < length h \<longrightarrow>
            devTraverseDfs_Filt fuel h (Some a) searchFunc rh \<noteq> Some (Inl e))"
proof -
  have hp: "heap_present h" using assms by (rule reachable_present)
  show ?thesis using hp dfs_no_fault[OF hp] dfs_filt_no_fault[OF hp] by simp
qed

text \<open>Witness for C10: the graph built from \<open>{(1,2)}\<close>, after a \<open>severCnt\<close> by position.\<close>

theorem adjacency_lists_present_witness:
  "reachable [node_of 1 [] [], node_of 2 [] []]
     \<lparr>raw_ptrs = [Some 0, Some 1], calc_cnts = [cnt 1 2], degrees = [1, 0], indexes = [1, 2],
      count = 2\<rparr> \<and>
   heap_present [node_of 1 [] [], node_of 2 [] []]"
proof -
  let ?g = "\<lparr>raw_ptrs = [Some 0, Some 1], calc_cnts = [cnt 1 2], degrees = [1, 0],
             indexes = [1, 2], count = 2\<rparr>"
  have "new_graph () [] [cnt 1 2] = Inr ([node_of 1 [Some 1] [], node_of 2 [] [Some 0]], ?g)"
    by code_simp
  then have "reachable [node_of 1 [Some 1] [], node_of 2 [] [Some 0]] ?g"
    by (rule constructed)
  moreover have "severCnt_at [node_of 1 [Some 1] [], node_of 2 [] [Some 0]] 0 0
      = Inr ([node_of 1 [] [], node_of 2 [] []], 0)"
    by code_simp
  ultimately have r: "reachable [node_of 1 [] [], node_of 2 [] []] ?g"
    by (rule severed_at)
  show ?thesis using r adjacency_lists_present[OF r] by blast
qed

subsection \<open>The graph and its nodes\<close>

text \<open>
  The constructor and every operation keep the link between the graph and the heap:
  \<open>idxMap\<close> finds the position of a stored identity, the constructor stores each
  identity once and stops before the positions reach the reserved values, and no
  operation changes the identity of a node.
\<close>

lemma idxMap_loop_absent: "ident \<notin> set xs \<Longrightarrow> idxMap_loop xs i ident = - 1"
  by (induction xs arbitrary: i) auto

lemma idxMap_loop_found:
  "ident \<in> set xs \<Longrightarrow> \<exists>p<length xs. xs ! p = ident \<and> idxMap_loop xs i ident = i + of_nat p"
proof (induction xs arbitrary: i)
  case Nil
  then show ?case by simp
next
  case (Cons x xs)
  show ?case
  proof (cases "x = ident")
    case True
    then show ?thesis by (intro exI[of _ 0]) simp
  next
    case False
    then have "ident \<in> set xs" using Cons.prems by simp
    from Cons.IH[OF this, of "i + 1"] obtain p where
      p: "p < length xs" "xs ! p = ident" "idxMap_loop xs (i + 1) ident = i + 1 + of_nat p" by blast
    show ?thesis using p False by (intro exI[of _ "Suc p"]) simp
  qed
qed

lemma unat_position: "p < 4294967296 \<Longrightarrow> unat (word_of_nat p :: u32) = p"
  by (simp add: unat_of_nat)

lemma position_found:
  assumes "p \<le> 4294967292"
  shows "\<not> not_found (word_of_nat p)"
proof
  assume "not_found (word_of_nat p)"
  moreover have "(- 1 :: u32) = 4294967295" by simp
  ultimately have "(word_of_nat p :: u32) = 4294967293 \<or> (word_of_nat p :: u32) = 4294967295"
    unfolding not_found_def by simp
  then have "unat (word_of_nat p :: u32) = 4294967293 \<or> unat (word_of_nat p :: u32) = 4294967295"
    by auto
  then show False using assms unat_position[of p] by simp
qed

lemma idxMap_found:
  assumes "ident \<in> set (indexes g)" "length (indexes g) \<le> 4294967292"
  shows "\<exists>p<length (indexes g). indexes g ! p = ident \<and> idxMap g ident = word_of_nat p \<and>
           unat (idxMap g ident) = p \<and> \<not> not_found (idxMap g ident)"
proof -
  from idxMap_loop_found[OF assms(1), of 0] obtain p where
    p: "p < length (indexes g)" "indexes g ! p = ident" "idxMap g ident = word_of_nat p"
    by (auto simp: idxMap_def)
  have "unat (idxMap g ident) = p" using p(1,3) assms(2) by (simp add: unat_position)
  moreover have "\<not> not_found (idxMap g ident)" using p(1,3) assms(2) by (simp add: position_found)
  ultimately show ?thesis using p by blast
qed

lemma idxMap_absent: "ident \<notin> set (indexes g) \<Longrightarrow> not_found (idxMap g ident)"
  by (simp add: idxMap_def idxMap_loop_absent not_found_def)

lemma resolve_or_create_owns:
  assumes o: "graph_owns h g" and l: "length h \<le> 4294967291"
    and r: "resolve_or_create prefill h g ident = (h1, g1, i)"
  shows "graph_owns h1 g1 \<and> unat i < length h1 \<and> index (h1 ! unat i) = ident \<and>
         (length h1 = length h \<or> length h1 = Suc (length h) \<and> unat i = length h)"
proof (cases "ident \<in> set (indexes g)")
  case True
  have len: "length (indexes g) = length h" using o by (simp add: graph_owns_def)
  from idxMap_found[OF True] len l obtain p where
    p: "p < length h" "indexes g ! p = ident" "unat (idxMap g ident) = p" "\<not> not_found (idxMap g ident)"
    by auto
  have "h1 = h" "g1 = g" "i = idxMap g ident" using r p(4) by (auto simp: resolve_or_create_def Let_def)
  moreover have "index (h ! p) = ident" using p(1,2) o by (simp add: graph_owns_def)
  ultimately show ?thesis using o p by simp
next
  case False
  have len: "length (indexes g) = length h" using o by (simp add: graph_owns_def)
  from idxMap_absent[OF False] have
    e: "h1 = h @ [new_node ident prefill]"
       "g1 = g\<lparr>indexes := indexes g @ [ident], raw_ptrs := raw_ptrs g @ [Some (length h)]\<rparr>"
       "i = word_of_nat (length (indexes g @ [ident])) - 1"
    using r by (auto simp: resolve_or_create_def Let_def)
  have "i = word_of_nat (length h)" using e(3) len by simp
  then have u: "unat i = length h" using l by (simp add: unat_position)
  have "graph_owns h1 g1" using o False unfolding e graph_owns_def by (simp add: new_node_def)
  then show ?thesis using u e(1) by (simp add: new_node_def)
qed

lemma map_index_update:
  assumes "index n = index (h ! a)"
  shows "map index (h[a := n]) = map index h"
proof (cases "a < length h")
  case True
  then show ?thesis using assms by (simp add: map_update list_update_same_conv)
next
  case False
  then have "h[a := n] = h" by (simp add: list_update_beyond)
  then show ?thesis by simp
qed

lemma establishCnt_index:
  assumes "establishCnt h a other = Inr (h1, n)"
  shows "map index h1 = map index h"
  using assms
  by (auto simp: establishCnt_def deref_def Let_def map_index_update
           split: option.splits if_splits sum.splits)

lemma severCnt_index:
  assumes "severCnt h a other = Inr (h1, n)"
  shows "map index h1 = map index h"
  using assms
  by (auto simp: severCnt_def deref_def Let_def map_index_update
           split: option.splits if_splits sum.splits prod.splits)

lemma severCnt_at_index:
  assumes "severCnt_at h a pos = Inr (h1, n)"
  shows "map index h1 = map index h"
  using assms
  by (auto simp: severCnt_at_def deref_def Let_def map_index_update
           split: option.splits if_splits sum.splits prod.splits)

lemma sever_all_index:
  "sever_all h a ds = Inr h1 \<Longrightarrow> map index h1 = map index h"
proof (induction ds arbitrary: h)
  case Nil
  then show ?case by simp
next
  case (Cons d ds)
  then show ?case
    by (auto split: sum.splits prod.splits) (metis severCnt_index)
qed

lemma optimize_loop_index:
  "optimize_loop prioFunc h raw is cnts = Inr (h1, cnts1) \<Longrightarrow> map index h1 = map index h"
proof (induction "is" arbitrary: h cnts)
  case Nil
  then show ?case by simp
next
  case (Cons i "is")
  then show ?case
    by (auto split: sum.splits prod.splits) (metis sever_all_index)
qed

lemma optimizeCnts_prio_index:
  assumes "optimizeCnts_prio prioFunc h g = Inr (h1, g1, n)"
  shows "map index h1 = map index h \<and> (\<exists>cnts. g1 = g\<lparr>calc_cnts := cnts\<rparr>)"
  using assms optimize_loop_index
  by (auto simp: optimizeCnts_prio_def split: sum.splits prod.splits)

lemma graph_owns_index:
  assumes "map index h1 = map index h"
  shows "graph_owns h1 g = graph_owns h g"
proof -
  have "length h1 = length h" using assms by (metis length_map)
  then show ?thesis using assms by (simp add: graph_owns_def)
qed

lemma graph_owns_calc [simp]: "graph_owns h (g\<lparr>calc_cnts := c\<rparr>) = graph_owns h g"
  by (simp add: graph_owns_def)

lemma construct_loop_owns:
  assumes "graph_owns h g" "length h \<le> 4294967290" "construct_loop prefill h g cl = Inr (h1, g1)"
  shows "graph_owns h1 g1 \<and> length h1 \<le> 4294967292"
  using assms
proof (induction cl arbitrary: h g)
  case Nil
  then show ?case by simp
next
  case (Cons TMP rest)
  obtain ha ga i where r1: "resolve_or_create prefill h g (cnt_from TMP) = (ha, ga, i)"
    by (cases "resolve_or_create prefill h g (cnt_from TMP)") auto
  obtain hb gb j where r2: "resolve_or_create prefill ha ga (cnt_to TMP) = (hb, gb, j)"
    by (cases "resolve_or_create prefill ha ga (cnt_to TMP)") auto
  have l0: "length h \<le> 4294967291" using Cons.prems(2) by simp
  note a = resolve_or_create_owns[OF Cons.prems(1) l0 r1]
  have la: "length ha \<le> 4294967291" using a Cons.prems(2) by auto
  note b = resolve_or_create_owns[OF conjunct1[OF a] la r2]
  have lb: "length hb \<le> 4294967292" using b la by auto
  from Cons.prems(3) r1 r2 obtain x pj hc n where
    e: "establishCnt hb x pj = Inr (hc, n)" and
    rest: "(if i \<ge> 4294967290 \<or> j \<ge> 4294967290
            then Inr (hc, gb\<lparr>calc_cnts := calc_cnts gb @ [TMP]\<rparr>)
            else construct_loop prefill hc (gb\<lparr>calc_cnts := calc_cnts gb @ [TMP]\<rparr>) rest) = Inr (h1, g1)"
    by (auto simp: Let_def split: sum.splits option.splits prod.splits)
  have ic: "map index hc = map index hb" by (rule establishCnt_index[OF e])
  then have lc: "length hc = length hb" by (metis length_map)
  have oc: "graph_owns hc (gb\<lparr>calc_cnts := calc_cnts gb @ [TMP]\<rparr>)"
    using b graph_owns_index[OF ic] by simp
  show ?case
  proof (cases "i \<ge> 4294967290 \<or> j \<ge> 4294967290")
    case True
    then show ?thesis using rest oc lc lb by auto
  next
    case False
    then have "unat i < 4294967290" "unat j < 4294967290"
      by (simp_all add: word_le_nat_alt not_le)
    then have "length hb \<le> 4294967290" using a b Cons.prems(2) by auto
    then have "length hc \<le> 4294967290" using lc by simp
    from Cons.IH[OF oc this] rest False show ?thesis by simp
  qed
qed

lemma graph_owns_empty: "graph_owns [] empty_graph"
  by (simp add: graph_owns_def empty_graph_def)

lemma new_graph_owns:
  assumes "new_graph prefill [] cl = Inr (h, g)"
  shows "graph_owns h g \<and> count g = length h \<and> length h \<le> 4294967292"
proof -
  from assms obtain g1 largest where
    c: "construct_loop prefill [] empty_graph cl = Inr (h, g1)" and
    d: "calcDegrees h (g1\<lparr>count := length (raw_ptrs g1)\<rparr>) = Inr (g, largest)"
    by (auto simp: new_graph_def split: sum.splits prod.splits)
  from construct_loop_owns[OF graph_owns_empty _ c] have o: "graph_owns h g1" "length h \<le> 4294967292"
    by simp_all
  from d obtain degs where "g = g1\<lparr>count := length (raw_ptrs g1), degrees := degs\<rparr>"
    by (auto simp: calcDegrees_def split: sum.splits prod.splits)
  then show ?thesis using o by (simp add: graph_owns_def)
qed

lemma graph_inv_index:
  assumes "graph_inv h g" "map index h1 = map index h"
  shows "graph_inv h1 g"
proof -
  have l: "length h1 = length h" using assms(2) by (metis length_map)
  have "map index (take (count g) h1) = map index (take (count g) h)"
    using assms(2) by (simp add: take_map[symmetric])
  from graph_owns_index[OF this] show ?thesis using assms(1) l by (simp add: graph_inv_def)
qed

lemma graph_inv_calc [simp]: "graph_inv h (g\<lparr>calc_cnts := c\<rparr>) = graph_inv h g"
  by (simp add: graph_inv_def)

lemma reachable_inv:
  assumes "reachable h g"
  shows "graph_inv h g"
  using assms
proof (induction rule: reachable.induct)
  case (constructed prefill connectionList h g)
  then show ?case using new_graph_owns[OF constructed] by (simp add: graph_inv_def)
next
  case (created h g ident val)
  then show ?case by (simp add: graph_inv_def)
next
  case (established h g a other h1 n)
  then show ?case using graph_inv_index establishCnt_index by blast
next
  case (severed h g a other h1 n)
  then show ?case using graph_inv_index severCnt_index by blast
next
  case (severed_at h g a pos h1 n)
  then show ?case using graph_inv_index severCnt_at_index by blast
next
  case (optimized h g h1 g1 n)
  then show ?case using optimizeCnts_prio_index[of "\<lambda>from_node to_node. 0" h g h1 g1 n]
      graph_inv_index[of h g h1]
    by (auto simp: optimizeCnts_def)
next
  case (optimized_prio h g prioFunc h1 g1 n)
  then show ?case using optimizeCnts_prio_index[of prioFunc h g h1 g1 n] graph_inv_index[of h g h1]
    by auto
qed

lemma owned_graph_ok:
  assumes r: "reachable h g" and c: "count g = length h"
    and b: "\<forall>x\<in>set (indexes g). x \<le> 4294967293"
  shows "graph_ok h"
proof -
  have o: "graph_owns h g" using reachable_inv[OF r] c by (simp add: graph_inv_def)
  have "\<forall>n\<in>set h. index n \<le> 4294967293" using b o by (simp add: graph_owns_def)
  then show ?thesis using o reachable_present[OF r] by (simp add: graph_ok_def graph_owns_def)
qed

lemma owned_start:
  assumes r: "reachable h g" and c: "count g = length h" and i: "ident \<in> set (indexes g)"
  shows "\<exists>a<length h. index (h ! a) = ident \<and> start_of g ident = Some (Inr (Some a))"
proof -
  have inv: "graph_inv h g" by (rule reachable_inv[OF r])
  then have o: "graph_owns h g" and l: "length h \<le> 4294967292" using c by (simp_all add: graph_inv_def)
  have len: "length (indexes g) = length h" using o by (simp add: graph_owns_def)
  from idxMap_found[OF i] len l obtain p where
    p: "p < length h" "indexes g ! p = ident" "unat (idxMap g ident) = p" "\<not> not_found (idxMap g ident)"
    by auto
  have "index (h ! p) = ident" using p(1,2) o by (simp add: graph_owns_def)
  moreover have "start_of g ident = Some (Inr (Some p))"
    using p o by (simp add: start_of_def Let_def graph_owns_def)
  ultimately show ?thesis using p(1) by blast
qed

subsection \<open>Edge cases without effect\<close>

lemma sever_loop_absent:
  assumes "other \<notin> set out" "this \<notin> set inn" "other \<noteq> None" "this \<noteq> None"
  shows "sever_loop (length out) (length inn) maxidx this other i out inn False False = Inr (out, inn)"
  using assms
proof (induction "maxidx - i" arbitrary: i)
  case 0
  then show ?case by (subst sever_loop.simps) simp
next
  case (Suc k)
  then have lt: "i < maxidx" by simp
  define tmpExt where "tmpExt = (if i < length out then out ! i else None)"
  define tmpInt where "tmpInt = (if i < length inn then inn ! i else None)"
  have te: "(if i < length out then at out i else Inr None) = Inr tmpExt"
    by (simp add: tmpExt_def at_def)
  have ti: "(if i < length inn then at inn i else Inr None) = Inr tmpInt"
    by (simp add: tmpInt_def at_def)
  have ne: "tmpExt \<noteq> other" unfolding tmpExt_def using Suc.prems(1,3) by (metis nth_mem)
  have ni: "tmpInt \<noteq> this" unfolding tmpInt_def using Suc.prems(2,4) by (metis nth_mem)
  have "sever_loop (length out) (length inn) maxidx this other (Suc i) out inn False False = Inr (out, inn)"
    using Suc by (intro Suc.hyps(1)) auto
  then show ?case using sever_loop_step[OF lt te ti, of this other False False] ne ni by simp
qed

text \<open>The edge cases that are no-ops, and the start identity that does not resolve.\<close>

lemma edge_cases_noop:
  assumes a: "a < length h"
  shows "establishCnt h a None = Inr (h, length (cnt_out (h ! a)))"
    and "establishCnt h a (Some a) = Inr (h, length (cnt_out (h ! a)))"
    and "severCnt h a None = Inr (h, length (cnt_out (h ! a)))"
    and "severCnt h a (Some a) = Inr (h, length (cnt_out (h ! a)))"
    and "b < length h \<Longrightarrow> Some b \<notin> set (cnt_out (h ! a)) \<Longrightarrow> Some a \<notin> set (cnt_in (h ! b))
           \<Longrightarrow> severCnt h a (Some b) = Inr (h, length (cnt_out (h ! a)))"
    and "length (cnt_out (h ! a)) \<le> pos \<Longrightarrow> severCnt_at h a pos = Inr (h, length (cnt_out (h ! a)))"
    and "bfs_for h (None # ps) hdr out = bfs_for h ps hdr out"
proof -
  show "establishCnt h a None = Inr (h, length (cnt_out (h ! a)))"
    using a by (simp add: establishCnt_def)
  show "establishCnt h a (Some a) = Inr (h, length (cnt_out (h ! a)))"
    using a by (simp add: establishCnt_def)
  show "severCnt h a None = Inr (h, length (cnt_out (h ! a)))"
    using a by (simp add: severCnt_def)
  show "severCnt h a (Some a) = Inr (h, length (cnt_out (h ! a)))"
    using a by (simp add: severCnt_def)
  show "severCnt h a (Some b) = Inr (h, length (cnt_out (h ! a)))"
    if "b < length h" "Some b \<notin> set (cnt_out (h ! a))" "Some a \<notin> set (cnt_in (h ! b))"
    using a that sever_loop_absent[of "Some b" "cnt_out (h ! a)" "Some a" "cnt_in (h ! b)"]
    by (simp add: severCnt_def Let_def)
  show "severCnt_at h a pos = Inr (h, length (cnt_out (h ! a)))" if "length (cnt_out (h ! a)) \<le> pos"
    using a that by (simp add: severCnt_at_def)
  show "bfs_for h (None # ps) hdr out = bfs_for h ps hdr out" by simp
qed

lemma unresolved_start_is_empty:
  assumes "start_of g index_start = None"
  shows "runBreadthFirst fuel h g index_start = Some (Inr [])"
    and "runDepthFirst fuel h g index_start = Some (Inr [])"
    and "runDepthFirst_Filt fuel h g index_start searchFunc = Some (Inr [])"
  using assms by (simp_all add: runBreadthFirst_def runDepthFirst_def runDepthFirst_Filt_def run_from_def)

subsection \<open>Depth-first traversal\<close>

lemma preorder_distinct:
  "preorder h V ps out \<Longrightarrow> distinct out \<and> set out \<inter> V = {}"
  by (induction rule: preorder.induct) auto

lemma preorder_closed:
  "preorder h V ps out \<Longrightarrow>
     (\<forall>b. Some b \<in> set ps \<longrightarrow> b \<in> V \<union> set out) \<and>
     (\<forall>c\<in>set out. \<forall>d. Some d \<in> set (cnt_out (h ! c)) \<longrightarrow> d \<in> V \<union> set out)"
proof (induction rule: preorder.induct)
  case (preorder_Nil V)
  then show ?case by simp
next
  case (preorder_seen b V ps out)
  then show ?case by auto
next
  case (preorder_new b V sub ps out)
  then show ?case by (simp add: Ball_def) blast
qed

lemma white_mono: "V \<subseteq> W \<Longrightarrow> (white h W)\<^sup>* \<subseteq> (white h V)\<^sup>*"
  by (intro rtrancl_mono) (auto simp: white_def)

lemma preorder_reach:
  "preorder h V ps out \<Longrightarrow> set out \<subseteq> {..<length h} \<Longrightarrow>
     \<forall>c\<in>set out. \<exists>b. Some b \<in> set ps \<and> b \<notin> V \<and> (b, c) \<in> (white h V)\<^sup>*"
proof (induction rule: preorder.induct)
  case (preorder_Nil V)
  then show ?case by simp
next
  case (preorder_seen b V ps out)
  then show ?case by auto
next
  case (preorder_new b V sub ps out)
  have "\<exists>b'. Some b' \<in> set (Some b # ps) \<and> b' \<notin> V \<and> (b', c) \<in> (white h V)\<^sup>*"
    if c: "c \<in> set (b # sub @ out)" for c
  proof -
    consider "c \<in> set (b # sub)" | "c \<in> set out" using c by auto
    then show ?thesis
    proof cases
      case 1
      then have "(b, c) \<in> (white h V)\<^sup>*" using preorder_new.hyps(3) by blast
      then show ?thesis using preorder_new.hyps(1) by auto
    next
      case 2
      have "set out \<subseteq> {..<length h}" using preorder_new.prems by auto
      from preorder_new.IH(2)[OF this] 2 obtain b' where
        b': "Some b' \<in> set ps" "b' \<notin> V \<union> set (b # sub)" "(b', c) \<in> (white h (V \<union> set (b # sub)))\<^sup>*"
        by blast
      have "(b', c) \<in> (white h V)\<^sup>*" using b'(3) white_mono[of V "V \<union> set (b # sub)" h] by blast
      then show ?thesis using b' by auto
    qed
  qed
  then show ?case by blast
qed

text \<open>The block of a new neighbour is what can be reached from it over unrecorded nodes.\<close>

lemma block_white:
  assumes p: "preorder h (insert b V) (cnt_out (h ! b)) sub" and sub: "set sub \<subseteq> {..<length h}"
    and b: "b < length h" "b \<notin> V"
  shows "set (b # sub) = {c. (b, c) \<in> (white h V)\<^sup>*}"
proof (intro equalityI subsetI)
  fix c assume "c \<in> set (b # sub)"
  then consider "c = b" | "c \<in> set sub" by auto
  then show "c \<in> {c. (b, c) \<in> (white h V)\<^sup>*}"
  proof cases
    case 1 then show ?thesis by simp
  next
    case 2
    from preorder_reach[OF p sub] 2 obtain b' where
      b': "Some b' \<in> set (cnt_out (h ! b))" "b' \<notin> insert b V" "(b', c) \<in> (white h (insert b V))\<^sup>*"
      by blast
    have "(b, b') \<in> white h V" using b' b by (auto simp: white_def edges_def)
    moreover have "(b', c) \<in> (white h V)\<^sup>*"
      using b'(3) white_mono[of V "insert b V" h] by blast
    ultimately show ?thesis by simp
  qed
next
  fix c assume "c \<in> {c. (b, c) \<in> (white h V)\<^sup>*}"
  then have "(b, c) \<in> (white h V)\<^sup>*" by simp
  then show "c \<in> set (b # sub)"
  proof (induction rule: rtrancl_induct)
    case base
    then show ?case by simp
  next
    case (step y z)
    then have yz: "Some z \<in> set (cnt_out (h ! y))" "z \<notin> V" by (auto simp: white_def edges_def)
    from preorder_closed[OF p] have
      roots: "\<And>x. Some x \<in> set (cnt_out (h ! b)) \<Longrightarrow> x \<in> insert b V \<union> set sub" and
      inner: "\<And>x d. x \<in> set sub \<Longrightarrow> Some d \<in> set (cnt_out (h ! x)) \<Longrightarrow> d \<in> insert b V \<union> set sub"
      by blast+
    have "z \<in> insert b V \<union> set sub"
      using step.IH yz(1) roots inner by auto
    then show ?case using yz(2) by auto
  qed
qed

lemma idset_insert [simp]: "idset h (insert a V) = insert (index (h ! a)) (idset h V)"
  by (simp add: idset_def)

lemma idset_empty [simp]: "idset h {} = {}"
  by (simp add: idset_def)

lemma idset_mem:
  assumes "graph_ok h" "V \<subseteq> {..<length h}" "a < length h"
  shows "index (h ! a) \<in> idset h V \<longleftrightarrow> a \<in> V"
proof
  assume "index (h ! a) \<in> idset h V"
  then obtain b where b: "b \<in> V" "index (h ! b) = index (h ! a)" by (auto simp: idset_def)
  then have "b < length h" using assms(2) by auto
  moreover have "distinct (map index h)" using assms(1) by (simp add: graph_ok_def)
  ultimately have "b = a" using b(2) assms(3)
    by (metis length_map nth_eq_iff_index_eq nth_map)
  then show "a \<in> V" using b by simp
qed (auto simp: idset_def)

lemma graph_ok_index: "graph_ok h \<Longrightarrow> a < length h \<Longrightarrow> index (h ! a) \<le> 4294967293"
  by (simp add: graph_ok_def)

lemma graph_ok_present: "graph_ok h \<Longrightarrow> a < length h \<Longrightarrow> \<forall>p\<in>set (cnt_out (h ! a)). present h p"
  using heap_present_nth by (auto simp: graph_ok_def)

lemma card_unvisited_insert:
  assumes "b < length h" "b \<notin> V" "card ({..<length h} - V) \<le> n"
  shows "\<exists>m. n = Suc m \<and> card ({..<length h} - insert b V) \<le> m"
proof -
  have fin: "finite ({..<length h} - V)" by simp
  have mem: "b \<in> {..<length h} - V" using assms by simp
  have "{..<length h} - insert b V = ({..<length h} - V) - {b}" by auto
  then have "card ({..<length h} - insert b V) = card ({..<length h} - V) - 1"
    using mem fin by simp
  moreover have "card ({..<length h} - V) > 0" using mem fin by (metis card_gt_0_iff empty_iff)
  ultimately show ?thesis using assms(3) by (cases n) auto
qed

lemma card_unvisited_mono:
  assumes "V \<subseteq> W" "card ({..<length h} - V) \<le> n"
  shows "card ({..<length h} - W) \<le> n"
proof -
  have "{..<length h} - W \<subseteq> {..<length h} - V" using assms(1) by auto
  then have "card ({..<length h} - W) \<le> card ({..<length h} - V)"
    by (intro card_mono) auto
  then show ?thesis using assms(2) by simp
qed

lemma dfs_for_refines:
  assumes ok: "graph_ok h"
  shows "V \<subseteq> {..<length h} \<Longrightarrow> hdr_inv hdr (idset h V) \<Longrightarrow> \<forall>p\<in>set ps. present h p
    \<Longrightarrow> card ({..<length h} - V) \<le> n
    \<Longrightarrow> \<exists>out hdr1. dfs_for n h ps hdr acc = Some (Inr (acc @ map Some out, hdr1)) \<and>
          preorder h V ps out \<and> hdr_inv hdr1 (idset h (V \<union> set out)) \<and> set out \<subseteq> {..<length h}"
proof (induction n arbitrary: V hdr ps acc rule: less_induct)
  case (less n)
  show ?case using less.prems
  proof (induction ps arbitrary: V hdr acc)
    case Nil
    then show ?case by (auto intro: preorder_Nil)
  next
    case (Cons p ps)
    from Cons.prems(3) obtain b where p: "p = Some b" and b: "b < length h"
      by (cases p) auto
    obtain hdr1 where t: "testAdd hdr (index (h ! b)) = (index (h ! b) \<notin> idset h V, hdr1)"
      and i1: "hdr_inv hdr1 (insert (index (h ! b)) (idset h V))"
      and same: "index (h ! b) \<in> idset h V \<longrightarrow> hdr1 = hdr"
      using testAdd_spec[OF Cons.prems(2) graph_ok_index[OF ok b]] by blast
    note mem = idset_mem[OF ok Cons.prems(1) b]
    show ?case
    proof (cases "b \<in> V")
      case True
      have rest: "\<forall>p\<in>set ps. present h p" using Cons.prems(3) by simp
      from Cons.IH[OF Cons.prems(1) Cons.prems(2) rest Cons.prems(4), of acc]
      obtain out hdr2 where r: "dfs_for n h ps hdr acc = Some (Inr (acc @ map Some out, hdr2))"
        "preorder h V ps out" "hdr_inv hdr2 (idset h (V \<union> set out))" "set out \<subseteq> {..<length h}"
        by blast
      have "dfs_for n h (p # ps) hdr acc = Some (Inr (acc @ map Some out, hdr2))"
        using p b t True mem same r(1) by simp
      then show ?thesis using r True p by (auto intro: preorder_seen)
    next
      case False
      obtain m where m: "n = Suc m" "card ({..<length h} - insert b V) \<le> m"
        using card_unvisited_insert[OF b False Cons.prems(4)] by blast
      have V1: "insert b V \<subseteq> {..<length h}" using Cons.prems(1) b by simp
      have i1': "hdr_inv hdr1 (idset h (insert b V))" using i1 by simp
      have t1: "testAdd hdr1 (index (h ! b)) = (False, hdr1)"
        using testAdd_spec[OF i1' graph_ok_index[OF ok b]] by auto
      have "m < n" using m by simp
      from less.IH[OF this V1 i1' graph_ok_present[OF ok b] m(2), of "[]"]
      obtain sub hdr2 where s: "dfs_for m h (cnt_out (h ! b)) hdr1 [] = Some (Inr (map Some sub, hdr2))"
        "preorder h (insert b V) (cnt_out (h ! b)) sub"
        "hdr_inv hdr2 (idset h (insert b V \<union> set sub))" "set sub \<subseteq> {..<length h}"
        by auto
      have call: "devTraverseDfs n h (Some b) (Some hdr1) = Some (Inr (map Some sub, hdr2))"
        using m(1) b t1 s(1) by (simp add: header_of_def)
      let ?W = "insert b V \<union> set sub"
      have W: "?W \<subseteq> {..<length h}" using V1 s(4) by simp
      have cW: "card ({..<length h} - ?W) \<le> n"
        by (rule card_unvisited_mono[OF _ Cons.prems(4)]) auto
      have Weq: "?W = V \<union> set (b # sub)" by auto
      have rest: "\<forall>p\<in>set ps. present h p" using Cons.prems(3) by simp
      from Cons.IH[OF W s(3) rest cW, of "(acc @ [p]) @ map Some sub"]
      obtain out hdr3 where r:
        "dfs_for n h ps hdr2 ((acc @ [p]) @ map Some sub) = Some (Inr (((acc @ [p]) @ map Some sub) @ map Some out, hdr3))"
        "preorder h ?W ps out" "hdr_inv hdr3 (idset h (?W \<union> set out))" "set out \<subseteq> {..<length h}"
        by blast
      have "dfs_for n h (p # ps) hdr acc = Some (Inr (acc @ map Some (b # sub @ out), hdr3))"
        using p b t False mem call r(1) by simp
      moreover have "preorder h V (p # ps) (b # sub @ out)"
        unfolding p using False s(2) block_white[OF s(2) s(4) b False] r(2)[unfolded Weq]
        by (rule preorder_new)
      moreover have "V \<union> set (b # sub @ out) = ?W \<union> set out" by auto
      moreover have "set (b # sub @ out) \<subseteq> {..<length h}" using b s(4) r(4) by auto
      ultimately show ?thesis using r(3) by metis
    qed
  qed
qed


lemma devTraverseDfs_owner:
  assumes ok: "graph_ok h" and a: "a < length h" and n: "length h \<le> n"
  shows "\<exists>out hdr. devTraverseDfs (Suc n) h (Some a) None = Some (Inr (map Some (a # out), hdr)) \<and>
           preorder h {a} (cnt_out (h ! a)) out \<and> set out \<subseteq> {..<length h}"
proof -
  obtain hdr1 where t: "testAdd new_header (index (h ! a)) = (True, hdr1)"
    and i1: "hdr_inv hdr1 (idset h {a})"
    using testAdd_spec[OF hdr_inv_new graph_ok_index[OF ok a]] by auto
  have "card ({..<length h} - {a}) \<le> length h"
    by (metis card_Diff_subset_Int card_lessThan diff_le_self finite_Int finite_insert finite.emptyI)
  then have c: "card ({..<length h} - {a}) \<le> n" using n by simp
  have V: "{a} \<subseteq> {..<length h}" using a by simp
  from dfs_for_refines[OF ok V i1 graph_ok_present[OF ok a] c, of "[Some a]"]
  obtain out hdr2 where r: "dfs_for n h (cnt_out (h ! a)) hdr1 [Some a]
        = Some (Inr ([Some a] @ map Some out, hdr2))"
      "preorder h {a} (cnt_out (h ! a)) out" "set out \<subseteq> {..<length h}"
    by blast
  have "devTraverseDfs (Suc n) h (Some a) None = Some (Inr (map Some (a # out), hdr2))"
    using a t r(1) by (simp add: header_of_def)
  then show ?thesis using r by blast
qed

lemma preorder_from_root:
  assumes p: "preorder h {a} (cnt_out (h ! a)) out" and sub: "set out \<subseteq> {..<length h}"
    and a: "a < length h"
  shows "distinct (a # out) \<and> set (a # out) = (edges h)\<^sup>* `` {a}"
proof -
  have d: "distinct (a # out)" using preorder_distinct[OF p] by auto
  have "set (a # out) = (edges h)\<^sup>* `` {a}"
  proof (intro equalityI subsetI)
    fix c assume "c \<in> set (a # out)"
    then consider "c = a" | "c \<in> set out" by auto
    then show "c \<in> (edges h)\<^sup>* `` {a}"
    proof cases
      case 1 then show ?thesis by simp
    next
      case 2
      from preorder_reach[OF p sub] 2 obtain b where
        b: "Some b \<in> set (cnt_out (h ! a))" "(b, c) \<in> (white h {a})\<^sup>*" by blast
      have "(white h {a})\<^sup>* \<subseteq> (edges h)\<^sup>*" by (intro rtrancl_mono) (auto simp: white_def)
      moreover have "(a, b) \<in> edges h" using b(1) a by (simp add: edges_def)
      ultimately show ?thesis using b(2) by (meson Image_singleton_iff converse_rtrancl_into_rtrancl subsetD)
    qed
  next
    fix c assume "c \<in> (edges h)\<^sup>* `` {a}"
    then have "(a, c) \<in> (edges h)\<^sup>*" by simp
    then show "c \<in> set (a # out)"
    proof (induction rule: rtrancl_induct)
      case base then show ?case by simp
    next
      case (step y z)
      then have yz: "Some z \<in> set (cnt_out (h ! y))" by (simp add: edges_def)
      from preorder_closed[OF p] have
        roots: "\<And>x. Some x \<in> set (cnt_out (h ! a)) \<Longrightarrow> x \<in> {a} \<union> set out" and
        inner: "\<And>x d. x \<in> set out \<Longrightarrow> Some d \<in> set (cnt_out (h ! x)) \<Longrightarrow> d \<in> {a} \<union> set out"
        by blast+
      show ?case using step.IH yz roots inner by auto
    qed
  qed
  then show ?thesis using d by simp
qed

text \<open>
  The traversal from a given start node: for a heap whose lists hold present references
  only and whose identities are unique and at most 4294967293, when the start identity
  resolves to the address \<open>a\<close>.
\<close>

lemma runDepthFirst_started:
  assumes "graph_ok h" "start_of g ident = Some (Inr (Some a))" "a < length h" "length h < fuel"
  shows "\<exists>out. runDepthFirst fuel h g ident = Some (Inr (map Some (a # out))) \<and>
           distinct (a # out) \<and> set (a # out) = (edges h)\<^sup>* `` {a} \<and>
           preorder h {a} (cnt_out (h ! a)) out"
proof -
  obtain n where n: "fuel = Suc n" "length h \<le> n" using assms(4) by (cases fuel) auto
  from devTraverseDfs_owner[OF assms(1) assms(3) n(2)] obtain out hdr where
    r: "devTraverseDfs (Suc n) h (Some a) None = Some (Inr (map Some (a # out), hdr))"
      "preorder h {a} (cnt_out (h ! a)) out" "set out \<subseteq> {..<length h}"
    by blast
  have "runDepthFirst fuel h g ident = Some (Inr (map Some (a # out)))"
    using assms(2) r(1) n(1) by (simp add: runDepthFirst_def run_from_def)
  then show ?thesis using preorder_from_root[OF r(2) r(3) assms(3)] r(2) by blast
qed

text \<open>
  Claim C8, as stated, fails where a node has one of the two largest identities. On the
  graph built from \<open>{(4294967295,4294967293),(4294967293,4294967294)}\<close> the start
  identity 4294967295 resolves to the node at address 0, whose outbound list leads to
  the node at address 1 and from there to the node at address 2; \<open>runDepthFirst\<close>
  returns the start node alone. The header's window starts at the minimum 4294967293,
  "a value higher than max supported", and the start identity leaves it there, so that
  the neighbour 4294967293 is taken for the recorded minimum.
\<close>

theorem runDepthFirst_reserved_identity:
  "(case new_graph () [] [cnt 4294967295 4294967293, cnt 4294967293 4294967294] of
      Inl e \<Rightarrow> None
    | Inr (h, g) \<Rightarrow> Some (runDepthFirst 10 h g 4294967295, map index h, map cnt_out h))
     = Some (Some (Inr [Some 0]),
             [4294967295, 4294967293, 4294967294], [[Some 1], [Some 2], []])"
  by code_simp

text \<open>
  Claim C8, amended by the bound on the identities. A graph is a heap \<open>h\<close> and a
  \<open>c_Graph\<close> \<open>g\<close> that the constructor and the operations have produced, where every
  node of the heap is one of the graph's. If no identity of the graph is one of the two
  largest values, and \<open>ident\<close> is one of its identities, then \<open>ident\<close> resolves to the
  one node \<open>a\<close> that carries it, and \<open>runDepthFirst\<close> returns whenever the fuel
  exceeds the number of nodes; its output holds each node reachable from \<open>a\<close> exactly
  once, \<open>a\<close> comes first, and the rest is the pre-order with immediate descent over the
  neighbours of \<open>a\<close>.
\<close>

theorem runDepthFirst_preorder:
  assumes "reachable h g" "count g = length h" "\<forall>x\<in>set (indexes g). x \<le> 4294967293"
    and "ident \<in> set (indexes g)" "length h < fuel"
  shows "\<exists>a out. a < length h \<and> index (h ! a) = ident \<and> distinct (map index h) \<and>
           runDepthFirst fuel h g ident = Some (Inr (map Some (a # out))) \<and>
           distinct (a # out) \<and> set (a # out) = (edges h)\<^sup>* `` {a} \<and>
           preorder h {a} (cnt_out (h ! a)) out"
proof -
  have ok: "graph_ok h" by (rule owned_graph_ok[OF assms(1) assms(2) assms(3)])
  from owned_start[OF assms(1) assms(2) assms(4)] obtain a where
    a: "a < length h" "index (h ! a) = ident" "start_of g ident = Some (Inr (Some a))" by blast
  have d: "distinct (map index h)" using ok by (simp add: graph_ok_def)
  from runDepthFirst_started[OF ok a(3) a(1) assms(5)] a(1) a(2) d show ?thesis by blast
qed

text \<open>
  Witness for C8: the graph built from \<open>{(5,1),(1,2),(1,3),(2,4),(3,4)}\<close>, started at
  identity 1, which is stored second. The output is the nodes of the identities
  1, 2, 4, 3; the node of identity 5 is not reachable.
\<close>

theorem runDepthFirst_preorder_witness:
  "reachable [node_of 5 [Some 1] [], node_of 1 [Some 2, Some 3] [Some 0], node_of 2 [Some 4] [Some 1],
          node_of 3 [Some 4] [Some 1], node_of 4 [] [Some 2, Some 3]]
     \<lparr>raw_ptrs = [Some 0, Some 1, Some 2, Some 3, Some 4],
          calc_cnts = [cnt 5 1, cnt 1 2, cnt 1 3, cnt 2 4, cnt 3 4],
          degrees = [1, 2, 1, 1, 0], indexes = [5, 1, 2, 3, 4], count = 5\<rparr> \<and>
   list_all (\<lambda>x. x \<le> 4294967293) (indexes \<lparr>raw_ptrs = [Some 0, Some 1, Some 2, Some 3, Some 4],
          calc_cnts = [cnt 5 1, cnt 1 2, cnt 1 3, cnt 2 4, cnt 3 4],
          degrees = [1, 2, 1, 1, 0], indexes = [5, 1, 2, 3, 4], count = 5\<rparr>) \<and>
   (\<exists>a out. a < length [node_of 5 [Some 1] [], node_of 1 [Some 2, Some 3] [Some 0], node_of 2 [Some 4] [Some 1],
          node_of 3 [Some 4] [Some 1], node_of 4 [] [Some 2, Some 3]] \<and>
      index ([node_of 5 [Some 1] [], node_of 1 [Some 2, Some 3] [Some 0], node_of 2 [Some 4] [Some 1],
          node_of 3 [Some 4] [Some 1], node_of 4 [] [Some 2, Some 3]] ! a) = 1 \<and>
      runDepthFirst 6 [node_of 5 [Some 1] [], node_of 1 [Some 2, Some 3] [Some 0], node_of 2 [Some 4] [Some 1],
          node_of 3 [Some 4] [Some 1], node_of 4 [] [Some 2, Some 3]]
        \<lparr>raw_ptrs = [Some 0, Some 1, Some 2, Some 3, Some 4],
          calc_cnts = [cnt 5 1, cnt 1 2, cnt 1 3, cnt 2 4, cnt 3 4],
          degrees = [1, 2, 1, 1, 0], indexes = [5, 1, 2, 3, 4], count = 5\<rparr> 1
        = Some (Inr (map Some (a # out))) \<and>
      distinct (a # out) \<and>
      set (a # out) = (edges [node_of 5 [Some 1] [], node_of 1 [Some 2, Some 3] [Some 0], node_of 2 [Some 4] [Some 1],
          node_of 3 [Some 4] [Some 1], node_of 4 [] [Some 2, Some 3]])\<^sup>* `` {a} \<and>
      preorder [node_of 5 [Some 1] [], node_of 1 [Some 2, Some 3] [Some 0], node_of 2 [Some 4] [Some 1],
          node_of 3 [Some 4] [Some 1], node_of 4 [] [Some 2, Some 3]] {a}
        (cnt_out ([node_of 5 [Some 1] [], node_of 1 [Some 2, Some 3] [Some 0], node_of 2 [Some 4] [Some 1],
          node_of 3 [Some 4] [Some 1], node_of 4 [] [Some 2, Some 3]] ! a)) out) \<and>
   runDepthFirst 6 [node_of 5 [Some 1] [], node_of 1 [Some 2, Some 3] [Some 0], node_of 2 [Some 4] [Some 1],
          node_of 3 [Some 4] [Some 1], node_of 4 [] [Some 2, Some 3]]
     \<lparr>raw_ptrs = [Some 0, Some 1, Some 2, Some 3, Some 4],
          calc_cnts = [cnt 5 1, cnt 1 2, cnt 1 3, cnt 2 4, cnt 3 4],
          degrees = [1, 2, 1, 1, 0], indexes = [5, 1, 2, 3, 4], count = 5\<rparr> 1
     = Some (Inr [Some 1, Some 2, Some 4, Some 3])"
proof -
  let ?h = "[node_of 5 [Some 1] [], node_of 1 [Some 2, Some 3] [Some 0], node_of 2 [Some 4] [Some 1],
          node_of 3 [Some 4] [Some 1], node_of 4 [] [Some 2, Some 3]]"
  let ?g = "\<lparr>raw_ptrs = [Some 0, Some 1, Some 2, Some 3, Some 4],
          calc_cnts = [cnt 5 1, cnt 1 2, cnt 1 3, cnt 2 4, cnt 3 4],
          degrees = [1, 2, 1, 1, 0], indexes = [5, 1, 2, 3, 4], count = 5\<rparr>"
  have ng: "new_graph () [] [cnt 5 1, cnt 1 2, cnt 1 3, cnt 2 4, cnt 3 4] = Inr (?h, ?g)"
    by code_simp
  have r: "reachable ?h ?g" by (rule reachable.constructed[OF ng])
  have c: "count ?g = length ?h" by simp
  have b: "\<forall>x\<in>set (indexes ?g). x \<le> 4294967293" by simp
  have i: "1 \<in> set (indexes ?g)" by simp
  have la: "list_all (\<lambda>x. x \<le> 4294967293) (indexes ?g)" by simp
  have f: "length ?h < 6" by simp
  have run: "runDepthFirst 6 ?h ?g 1 = Some (Inr [Some 1, Some 2, Some 4, Some 3])"
    by code_simp
  have ex: "\<exists>a out. a < length ?h \<and> index (?h ! a) = 1 \<and>
      runDepthFirst 6 ?h ?g 1 = Some (Inr (map Some (a # out))) \<and>
      distinct (a # out) \<and> set (a # out) = (edges ?h)\<^sup>* `` {a} \<and>
      preorder ?h {a} (cnt_out (?h ! a)) out"
    using runDepthFirst_preorder[OF r c b i f] by blast
  show ?thesis using r la ex run by blast
qed

subsection \<open>Breadth-first traversal\<close>

declare level_state.simps(2) [simp del]

declare devTraverseBfs.simps(2) [simp del] bfs_do.simps(2) [simp del] bfs_while.simps(2) [simp del]

lemmas bfs_unfold = devTraverseBfs.simps(2) bfs_do.simps(2) bfs_while.simps(2)

lemma bfs_do_Suc:
  assumes w: "bfs_while n h hdr [] = Some (Inr (dq, h1))"
    and "kept = filter (\<lambda>i. i \<noteq> None) dq"
    and "promote = (ow \<and> visit_queue h1 = [] \<and> nq @ kept \<noteq> [])"
    and "h2 = (if promote then h1\<lparr>visit_queue := nq @ kept\<rparr> else h1)"
    and "nq2 = (if promote then [] else nq @ kept)"
  shows "bfs_do (Suc n) h ow hdr out nq =
    (if visit_queue h2 \<noteq> [] then bfs_do n h ow h2 (out @ kept) nq2
     else Some (Inr (out @ kept, h2, nq2)))"
  unfolding assms(2-)
  by (simp only: bfs_do.simps w option.case sum.case prod.case Let_def)

lemma bfs_while_Suc:
  assumes "visit_queue hdr = handle # rest"
    and "devTraverseBfs n h handle (Some (hdr\<lparr>visit_queue := rest\<rparr>)) = Some (Inr (d1, h1))"
  shows "bfs_while (Suc n) h hdr [] = bfs_while n h h1 d1"
  using assms by (simp add: bfs_unfold)

lemma bfs_while_done:
  assumes "dq \<noteq> [] \<or> visit_queue hdr = []"
  shows "bfs_while (Suc n) h hdr dq = Some (Inr (dq, hdr))"
  using assms by (auto simp: bfs_unfold)

lemma bfs_fuel_step:
  "(\<forall>(h::'d heap) s rh r. devTraverseBfs n h s rh = Some r \<longrightarrow> devTraverseBfs (Suc n) h s rh = Some r) \<and>
   (\<forall>(h::'d heap) ow hdr out nq r. bfs_do n h ow hdr out nq = Some r \<longrightarrow> bfs_do (Suc n) h ow hdr out nq = Some r) \<and>
   (\<forall>(h::'d heap) hdr dq r. bfs_while n h hdr dq = Some r \<longrightarrow> bfs_while (Suc n) h hdr dq = Some r)"
proof (induction n)
  case 0
  then show ?case by simp
next
  case (Suc n)
  then have IH1: "\<And>(h::'d heap) s rh r. devTraverseBfs n h s rh = Some r \<Longrightarrow> devTraverseBfs (Suc n) h s rh = Some r"
    and IH2: "\<And>(h::'d heap) ow hdr out nq r. bfs_do n h ow hdr out nq = Some r \<Longrightarrow> bfs_do (Suc n) h ow hdr out nq = Some r"
    and IH3: "\<And>(h::'d heap) hdr dq r. bfs_while n h hdr dq = Some r \<Longrightarrow> bfs_while (Suc n) h hdr dq = Some r"
    by auto
  have A': "devTraverseBfs (Suc (Suc n)) h (Some x) rh = Some r"
    if a: "devTraverseBfs (Suc n) h (Some x) rh = Some r" for h :: "'d heap" and x rh r
  proof (cases "deref h (Some x)")
    case (Inl e)
    then have "devTraverseBfs (Suc k) h (Some x) rh = Some (Inl e)" for k
      by (simp add: bfs_unfold Let_def split del: if_split)
    then show ?thesis using a by simp
  next
    case (Inr node)
    obtain b header where t: "testAdd (header_of rh) (index node) = (b, header)"
      by (cases "testAdd (header_of rh) (index node)")
    show ?thesis
    proof (cases "bfs_for h (cnt_out node) header (if b then [Some x] else [])")
      case (Inl e)
      then have "devTraverseBfs (Suc k) h (Some x) rh = Some (Inl e)" for k
        using Inr t by (simp add: bfs_unfold Let_def split del: if_split)
      then show ?thesis using a by simp
    next
      case r1: (Inr pr)
      obtain o1 h1 where pr: "pr = (o1, h1)" by (cases pr)
      show ?thesis
      proof (cases "bfs_do n h (rh = None) h1 o1 []")
        case None
        then show ?thesis using a Inr t r1 pr by (simp add: bfs_unfold Let_def split del: if_split)
      next
        case s2: (Some y)
        from IH2[OF s2] show ?thesis using a Inr t r1 pr s2
          by (simp add: bfs_unfold Let_def split del: if_split)
      qed
    qed
  qed
  have A: "devTraverseBfs (Suc (Suc n)) h s rh = Some r" if a: "devTraverseBfs (Suc n) h s rh = Some r"
    for h :: "'d heap" and s rh r
  proof (cases s)
    case None
    then show ?thesis using a by (simp add: bfs_unfold)
  next
    case (Some x)
    then show ?thesis using a A' by simp
  qed
  have B: "bfs_do (Suc (Suc n)) h ow hdr out nq = Some r" if a: "bfs_do (Suc n) h ow hdr out nq = Some r"
    for h :: "'d heap" and ow hdr out nq r
  proof (cases "bfs_while n h hdr []")
    case None
    then show ?thesis using a by (simp add: bfs_unfold)
  next
    case (Some y)
    note w = IH3[OF Some]
    show ?thesis
    proof (cases y)
      case (Inl e)
      then have "bfs_do (Suc n) h ow hdr out nq = Some (Inl e)"
        using Some by (simp add: bfs_unfold)
      moreover have "bfs_do (Suc (Suc n)) h ow hdr out nq = Some (Inl e)"
        using w Inl by (simp add: bfs_unfold)
      ultimately show ?thesis using a by simp
    next
      case (Inr pr)
      obtain dq h1 where pr: "pr = (dq, h1)" by (cases pr)
      define kept where "kept = filter (\<lambda>i. i \<noteq> None) dq"
      define promote where "promote = (ow \<and> visit_queue h1 = [] \<and> nq @ kept \<noteq> [])"
      define h2 where "h2 = (if promote then h1\<lparr>visit_queue := nq @ kept\<rparr> else h1)"
      define nq2 where "nq2 = (if promote then [] else nq @ kept)"
      have w0: "bfs_while n h hdr [] = Some (Inr (dq, h1))" using Some Inr pr by simp
      have w1: "bfs_while (Suc n) h hdr [] = Some (Inr (dq, h1))" using w Inr pr by simp
      note e0 = bfs_do_Suc[OF w0 kept_def promote_def h2_def nq2_def, of out]
      note e1 = bfs_do_Suc[OF w1 kept_def promote_def h2_def nq2_def, of out]
      show ?thesis
      proof (cases "visit_queue h2 \<noteq> []")
        case True
        then have "bfs_do n h ow h2 (out @ kept) nq2 = Some r" using a e0 by simp
        from IH2[OF this] show ?thesis using e1 True by simp
      next
        case False
        then show ?thesis using a e0 e1 by simp
      qed
    qed
  qed
  have C: "bfs_while (Suc (Suc n)) h hdr dq = Some r" if a: "bfs_while (Suc n) h hdr dq = Some r"
    for h :: "'d heap" and hdr dq r
  proof (cases "dq = [] \<and> visit_queue hdr \<noteq> []")
    case False
    then have "dq \<noteq> [] \<or> visit_queue hdr = []" by simp
    note d = bfs_while_done[OF this]
    show ?thesis using a d[of n h] d[of "Suc n" h] by simp
  next
    case True
    then obtain handle rest where q: "visit_queue hdr = handle # rest" by (cases "visit_queue hdr") auto
    have dq: "dq = []" using True by simp
    show ?thesis
    proof (cases "devTraverseBfs n h handle (Some (hdr\<lparr>visit_queue := rest\<rparr>))")
      case None
      then show ?thesis using a True q by (simp add: bfs_unfold)
    next
      case (Some y)
      note w = IH1[OF Some]
      show ?thesis
      proof (cases y)
        case (Inl e)
        then have "bfs_while (Suc n) h hdr dq = Some (Inl e)"
          using Some True q by (simp add: bfs_unfold)
        moreover have "bfs_while (Suc (Suc n)) h hdr dq = Some (Inl e)"
          using w Inl True q by (simp add: bfs_unfold)
        ultimately show ?thesis using a by simp
      next
        case (Inr pr)
        obtain d1 h1 where pr: "pr = (d1, h1)" by (cases pr)
        have c0: "devTraverseBfs n h handle (Some (hdr\<lparr>visit_queue := rest\<rparr>)) = Some (Inr (d1, h1))"
          using Some Inr pr by simp
        have c1: "devTraverseBfs (Suc n) h handle (Some (hdr\<lparr>visit_queue := rest\<rparr>)) = Some (Inr (d1, h1))"
          using w Inr pr by simp
        have "bfs_while n h h1 d1 = Some r" using a bfs_while_Suc[OF q c0] dq by simp
        from IH3[OF this] show ?thesis using bfs_while_Suc[OF q c1] dq by simp
      qed
    qed
  qed
  show ?case using A B C by blast
qed

lemma devTraverseBfs_mono:
  "devTraverseBfs n h s rh = Some r \<Longrightarrow> n \<le> m \<Longrightarrow> devTraverseBfs m h s rh = Some r"
proof (induction m)
  case 0
  then show ?case by blast
next
  case (Suc m)
  show ?case
  proof (cases "n = Suc m")
    case True
    then show ?thesis using Suc.prems(1) by blast
  next
    case False
    then have "n \<le> m" using Suc.prems(2) by linarith
    then have "devTraverseBfs m h s rh = Some r" using Suc by blast
    then show ?thesis using bfs_fuel_step[of m] by blast
  qed
qed

lemma bfs_do_mono:
  "bfs_do n h ow hdr out nq = Some r \<Longrightarrow> n \<le> m \<Longrightarrow> bfs_do m h ow hdr out nq = Some r"
proof (induction m)
  case 0
  then show ?case by blast
next
  case (Suc m)
  show ?case
  proof (cases "n = Suc m")
    case True
    then show ?thesis using Suc.prems(1) by blast
  next
    case False
    then have "n \<le> m" using Suc.prems(2) by linarith
    then have "bfs_do m h ow hdr out nq = Some r" using Suc by blast
    then show ?thesis using bfs_fuel_step[of m] by blast
  qed
qed

lemma bfs_while_mono:
  "bfs_while n h hdr dq = Some r \<Longrightarrow> n \<le> m \<Longrightarrow> bfs_while m h hdr dq = Some r"
proof (induction m)
  case 0
  then show ?case by blast
next
  case (Suc m)
  show ?case
  proof (cases "n = Suc m")
    case True
    then show ?thesis using Suc.prems(1) by blast
  next
    case False
    then have "n \<le> m" using Suc.prems(2) by linarith
    then have "bfs_while m h hdr dq = Some r" using Suc by blast
    then show ?thesis using bfs_fuel_step[of m] by blast
  qed
qed

lemma set_newnodes: "set (newnodes V ps) = {b. Some b \<in> set ps} - V"
  by (induction ps arbitrary: V) (auto split: option.splits)

lemma distinct_newnodes: "distinct (newnodes V ps)"
  by (induction ps arbitrary: V) (auto simp: set_newnodes split: option.splits)

lemma newnodes_append:
  "newnodes V (ps @ qs) = newnodes V ps @ newnodes (V \<union> set (newnodes V ps)) qs"
  by (induction ps arbitrary: V) (auto split: option.splits)

lemma newnodes_Nil_iff: "newnodes V ps = [] \<longleftrightarrow> (\<forall>b. Some b \<in> set ps \<longrightarrow> b \<in> V)"
  using set_newnodes[of V ps] by (metis (mono_tags, lifting) Diff_eq_empty_iff mem_Collect_eq set_empty subsetD subsetI)

lemma expanded_newnodes: "expanded h V s \<longleftrightarrow> newnodes V (cnt_out (h ! s)) = []"
  by (simp add: expanded_def newnodes_Nil_iff)

lemma expanded_mono: "expanded h V s \<Longrightarrow> V \<subseteq> W \<Longrightarrow> expanded h W s"
  by (auto simp: expanded_def)

lemma expanded_after: "expanded h (V \<union> set (newnodes V (cnt_out (h ! s)))) s"
  by (auto simp: expanded_def set_newnodes)

lemma queue_order_closed:
  "queue_order h V Q out \<Longrightarrow> \<forall>x\<in>set Q. expanded h V x \<Longrightarrow> out = []"
proof (induction rule: queue_order.induct)
  case (queue_Nil V)
  then show ?case by simp
next
  case (queue_Cons C V s Q out)
  have C: "C = []" using queue_Cons.hyps(1) queue_Cons.prems by (simp add: expanded_newnodes)
  then show ?case using queue_Cons by simp
qed

lemma hdr_inv_queue [simp]: "hdr_inv (hdr\<lparr>visit_queue := q\<rparr>) S = hdr_inv hdr S"
  by (simp add: hdr_inv_def)

lemma bfs_for_spec:
  assumes ok: "graph_ok h"
  shows "V \<subseteq> {..<length h} \<Longrightarrow> hdr_inv hdr (idset h V) \<Longrightarrow> \<forall>p\<in>set ps. present h p \<Longrightarrow>
    \<exists>hdr1. bfs_for h ps hdr acc = Inr (acc @ map Some (newnodes V ps), hdr1) \<and>
      hdr_inv hdr1 (idset h (V \<union> set (newnodes V ps))) \<and>
      visit_queue hdr1 = visit_queue hdr @ map Some (newnodes V ps) \<and>
      set (newnodes V ps) \<subseteq> {..<length h}"
proof (induction ps arbitrary: V hdr acc)
  case Nil
  then show ?case by simp
next
  case (Cons p ps)
  from Cons.prems(3) obtain b where p: "p = Some b" and b: "b < length h"
    by (cases p) auto
  obtain hdr1 where t: "testAdd hdr (index (h ! b)) = (index (h ! b) \<notin> idset h V, hdr1)"
    and i1: "hdr_inv hdr1 (insert (index (h ! b)) (idset h V))"
    and q1: "visit_queue hdr1 = visit_queue hdr"
    and same: "index (h ! b) \<in> idset h V \<longrightarrow> hdr1 = hdr"
    using testAdd_spec[OF Cons.prems(2) graph_ok_index[OF ok b]] by blast
  note mem = idset_mem[OF ok Cons.prems(1) b]
  have rest: "\<forall>p\<in>set ps. present h p" using Cons.prems(3) by simp
  show ?case
  proof (cases "b \<in> V")
    case True
    from Cons.IH[OF Cons.prems(1) Cons.prems(2) rest, of acc]
    show ?thesis using p b t True mem same by simp
  next
    case False
    let ?hdr2 = "hdr1\<lparr>visit_queue := visit_queue hdr1 @ [Some b]\<rparr>"
    have V1: "insert b V \<subseteq> {..<length h}" using Cons.prems(1) b by simp
    have i2: "hdr_inv ?hdr2 (idset h (insert b V))" using i1 by simp
    from Cons.IH[OF V1 i2 rest, of "acc @ [Some b]"]
    obtain hdr3 where r: "bfs_for h ps ?hdr2 (acc @ [Some b])
        = Inr ((acc @ [Some b]) @ map Some (newnodes (insert b V) ps), hdr3)"
      "hdr_inv hdr3 (idset h (insert b V \<union> set (newnodes (insert b V) ps)))"
      "visit_queue hdr3 = visit_queue ?hdr2 @ map Some (newnodes (insert b V) ps)"
      "set (newnodes (insert b V) ps) \<subseteq> {..<length h}"
      by blast
    have "bfs_for h (p # ps) hdr acc = Inr (acc @ map Some (newnodes V (p # ps)), hdr3)"
      using p b t False mem r(1) by simp
    moreover have "V \<union> set (newnodes V (p # ps)) = insert b V \<union> set (newnodes (insert b V) ps)"
      using p False by auto
    ultimately show ?thesis using r q1 p False b by auto
  qed
qed

lemma filter_map_Some [simp]: "filter (\<lambda>i. i \<noteq> None) (map Some xs) = map Some xs"
  by (induction xs) auto

lemma bfs_frame:
  assumes ok: "graph_ok h" and pre: "bfs_pre h s V Q hdr"
    and nested: "\<And>s' V' Q' hdr'. bfs_pre h s' V' Q' hdr' \<Longrightarrow>
        V \<subset> V' \<or> (V' = V \<and> length Q' < length Q) \<Longrightarrow> bfs_post h s' V' Q' hdr'"
  shows "bfs_post h s V Q hdr"
proof -
  from pre have s: "s < length h" and V: "V \<subseteq> {..<length h}" and sV: "s \<in> V"
    and QV: "set Q \<subseteq> V" and inv: "hdr_inv hdr (idset h V)" and q: "visit_queue hdr = map Some Q"
    and ex: "\<And>x. x \<in> V \<Longrightarrow> x \<notin> set Q \<Longrightarrow> x \<noteq> s \<Longrightarrow> expanded h V x"
    by (auto simp: bfs_pre_def)
  define C where "C = newnodes V (cnt_out (h ! s))"
  have t: "testAdd hdr (index (h ! s)) = (False, hdr)"
    using testAdd_spec[OF inv graph_ok_index[OF ok s]] idset_mem[OF ok V s] sV by auto
  obtain hdr1 where f: "bfs_for h (cnt_out (h ! s)) hdr [] = Inr (map Some C, hdr1)"
    and i1: "hdr_inv hdr1 (idset h (V \<union> set C))" and q1: "visit_queue hdr1 = map Some (Q @ C)"
    and Csub: "set C \<subseteq> {..<length h}"
    using bfs_for_spec[OF ok V inv graph_ok_present[OF ok s], of "[]"] q unfolding C_def by auto
  have top: "devTraverseBfs (Suc n) h (Some s) (Some hdr)
      = Some (Inr (o2, if nq \<noteq> [] then h2\<lparr>visit_queue := nq\<rparr> else h2))"
    if "bfs_do n h False hdr1 (map Some C) [] = Some (Inr (o2, h2, nq))" for n o2 h2 nq
    using that s t f by (simp add: bfs_unfold header_of_def)
  have exp_s: "expanded h (V \<union> set C) s" unfolding C_def by (rule expanded_after)
  have Cdisj: "set C \<inter> V = {}" unfolding C_def by (auto simp: set_newnodes)
  have VC: "V \<union> set C \<subseteq> {..<length h}" using V Csub by simp
  show ?thesis
  proof (cases "Q @ C")
    case Nil
    then have Q: "Q = []" and C: "C = []" by simp_all
    have qe: "visit_queue hdr1 = []" using q1 Nil by simp
    have "bfs_while (Suc 0) h hdr1 [] = Some (Inr ([], hdr1))"
      using qe by (intro bfs_while_done) simp
    from bfs_do_Suc[OF this refl refl refl refl, where ow = False and nq = "[]" and out = "map Some C"]
    have "bfs_do (Suc (Suc 0)) h False hdr1 (map Some C) [] = Some (Inr (map Some C, hdr1, []))"
      using qe by simp
    from top[OF this] have r: "devTraverseBfs (Suc (Suc (Suc 0))) h (Some s) (Some hdr)
        = Some (Inr (map Some [], hdr1))" using C by simp
    have qo: "queue_order h V (s # Q) ([] @ [])"
      by (rule queue_Cons[where C = "[]"]) (use C C_def Q in \<open>auto intro: queue_Nil\<close>)
    have "expanded h V x" if "x \<in> V" for x
      using ex[OF that] exp_s Q C by (cases "x = s") auto
    then show ?thesis unfolding bfs_post_def
      using r qo i1 qe C C_def by (intro exI[of _ "Suc (Suc (Suc 0))"] exI[of _ "[]"] exI[of _ hdr1]) auto
  next
    case (Cons h1 R)
    have h1: "h1 \<in> V \<union> set C" and RV: "set R \<subseteq> V \<union> set C"
      using Cons QV by (metis Un_iff list.set_intros(1) set_append subsetD,
        metis (no_types, lifting) Un_mono list.set_intros(2) set_append subsetI subset_refl sup.orderE subset_trans)
    have pre1: "bfs_pre h h1 (V \<union> set C) R (hdr1\<lparr>visit_queue := map Some R\<rparr>)"
      unfolding bfs_pre_def
    proof (intro conjI ballI impI)
      show "h1 < length h" using h1 VC by auto
      show "V \<union> set C \<subseteq> {..<length h}" by (rule VC)
      show "h1 \<in> V \<union> set C" by (rule h1)
      show "set R \<subseteq> V \<union> set C" by (rule RV)
      show "hdr_inv (hdr1\<lparr>visit_queue := map Some R\<rparr>) (idset h (V \<union> set C))" using i1 by simp
      show "visit_queue (hdr1\<lparr>visit_queue := map Some R\<rparr>) = map Some R" by simp
      fix x assume x: "x \<in> V \<union> set C" "x \<notin> set R" "x \<noteq> h1"
      then have nq: "x \<notin> set (Q @ C)" using Cons by simp
      then have xV: "x \<in> V" "x \<notin> set Q" using x by auto
      show "expanded h (V \<union> set C) x"
      proof (cases "x = s")
        case True then show ?thesis using exp_s by simp
      next
        case False
        then show ?thesis using ex[OF xV] expanded_mono by blast
      qed
    qed
    have dec1: "V \<subset> V \<union> set C \<or> (V \<union> set C = V \<and> length R < length Q)"
    proof (cases "C = []")
      case True then show ?thesis using Cons by auto
    next
      case False
      then obtain c where "c \<in> set C" by (cases C) auto
      then show ?thesis using Cdisj by auto
    qed
    from nested[OF pre1 dec1] obtain n1 out1 hdr2 where
      c1: "devTraverseBfs n1 h (Some h1) (Some (hdr1\<lparr>visit_queue := map Some R\<rparr>))
            = Some (Inr (map Some out1, hdr2))"
      and qo1: "queue_order h (V \<union> set C) (h1 # R) out1"
      and i2: "hdr_inv hdr2 (idset h (V \<union> set C \<union> set out1))"
      and q2: "visit_queue hdr2 = map Some (drop (length (newnodes (V \<union> set C) (cnt_out (h ! h1)))) out1)"
      and o1sub: "set out1 \<subseteq> {..<length h}" and o1disj: "set out1 \<inter> (V \<union> set C) = {}"
      and ex1: "\<And>x. x \<in> V \<union> set C \<union> set out1 \<Longrightarrow> expanded h (V \<union> set C \<union> set out1) x"
      unfolding bfs_post_def by blast
    define rest1 where "rest1 = drop (length (newnodes (V \<union> set C) (cnt_out (h ! h1)))) out1"
    have q2': "visit_queue hdr2 = map Some rest1" using q2 rest1_def by simp
    have qh1: "visit_queue hdr1 = Some h1 # map Some R" using q1 Cons by simp
    have out1_rest: "out1 = [] \<Longrightarrow> rest1 = []" by (simp add: rest1_def)
    have w1: "bfs_while (Suc (Suc n)) h hdr1 [] = Some (Inr (map Some out1, hdr2))" if "n1 \<le> n" for n
    proof -
      have "devTraverseBfs (Suc n) h (Some h1) (Some (hdr1\<lparr>visit_queue := map Some R\<rparr>))
            = Some (Inr (map Some out1, hdr2))"
        using devTraverseBfs_mono[OF c1, of "Suc n"] that by simp
      from bfs_while_Suc[OF qh1 this]
      have "bfs_while (Suc (Suc n)) h hdr1 [] = bfs_while (Suc n) h hdr2 (map Some out1)" .
      moreover have "map Some out1 \<noteq> [] \<or> visit_queue hdr2 = []"
        using out1_rest q2' by (cases out1) auto
      ultimately show ?thesis using bfs_while_done by metis
    qed
    have d1: "bfs_do (Suc (Suc (Suc n))) h False hdr1 (map Some C) [] =
        (if visit_queue hdr2 \<noteq> []
         then bfs_do (Suc (Suc n)) h False hdr2 (map Some C @ map Some out1) (map Some out1)
         else Some (Inr (map Some C @ map Some out1, hdr2, map Some out1)))" if "n1 \<le> n" for n
      using bfs_do_Suc[OF w1[OF that] refl refl refl refl, where ow = False and nq = "[]" and out = "map Some C"] by simp
    have qo: "queue_order h V (s # Q) (C @ out1)"
      using qo1 Cons C_def by (intro queue_Cons) auto
    have sub: "set (C @ out1) \<subseteq> {..<length h}" using Csub o1sub by simp
    have disj: "set (C @ out1) \<inter> V = {}" using Cdisj o1disj by auto
    have exA: "\<forall>x\<in>V \<union> set (C @ out1). expanded h (V \<union> set (C @ out1)) x"
      using ex1 by (simp add: Un_assoc)
    have iA: "hdr_inv hdr2 (idset h (V \<union> set (C @ out1)))" using i2 by (simp add: Un_assoc)
    show ?thesis
    proof (cases rest1)
      case Nil
      then have qe: "visit_queue hdr2 = []" using q2' by simp
      from d1[of n1] qe have "bfs_do (Suc (Suc (Suc n1))) h False hdr1 (map Some C) []
          = Some (Inr (map Some (C @ out1), hdr2, map Some out1))" by simp
      from top[OF this] have r: "devTraverseBfs (Suc (Suc (Suc (Suc n1)))) h (Some s) (Some hdr)
          = Some (Inr (map Some (C @ out1),
               if map Some out1 \<noteq> [] then hdr2\<lparr>visit_queue := map Some out1\<rparr> else hdr2))" .
      let ?hf = "if map Some out1 \<noteq> [] then hdr2\<lparr>visit_queue := map Some out1\<rparr> else hdr2"
      have qf: "visit_queue ?hf = map Some (drop (length (newnodes V (cnt_out (h ! s)))) (C @ out1))"
        using qe C_def by auto
      have "hdr_inv ?hf (idset h (V \<union> set (C @ out1)))" using iA by (cases "out1 = []") simp_all
      then show ?thesis unfolding bfs_post_def
        using r qo qf sub disj exA by blast
    next
      case (Cons h2 R2)
      have o1ne: "out1 \<noteq> []" using Cons out1_rest by auto
      have h2o: "h2 \<in> set out1" and R2o: "set R2 \<subseteq> set out1"
        using Cons rest1_def by (metis in_set_dropD list.set_intros(1),
          metis in_set_dropD list.set_intros(2) subsetI)
      let ?V1 = "V \<union> set C \<union> set out1"
      have V1: "?V1 \<subseteq> {..<length h}" using VC o1sub by simp
      have pre2: "bfs_pre h h2 ?V1 R2 (hdr2\<lparr>visit_queue := map Some R2\<rparr>)"
        unfolding bfs_pre_def using h2o R2o V1 i2 ex1 o1sub by auto
      have dec2: "V \<subset> ?V1 \<or> (?V1 = V \<and> length R2 < length Q)"
        using h2o o1disj by auto
      from nested[OF pre2 dec2] obtain n2 out2 hdr3 where
        c2: "devTraverseBfs n2 h (Some h2) (Some (hdr2\<lparr>visit_queue := map Some R2\<rparr>))
              = Some (Inr (map Some out2, hdr3))"
        and qo2: "queue_order h ?V1 (h2 # R2) out2"
        and i3: "hdr_inv hdr3 (idset h (?V1 \<union> set out2))"
        and q3: "visit_queue hdr3 = map Some (drop (length (newnodes ?V1 (cnt_out (h ! h2)))) out2)"
        unfolding bfs_post_def by blast
      have "\<forall>x\<in>set (h2 # R2). expanded h ?V1 x" using ex1 h2o R2o by auto
      from queue_order_closed[OF qo2 this] have o2: "out2 = []" .
      have q3e: "visit_queue hdr3 = []" using q3 o2 by simp
      have i3': "hdr_inv hdr3 (idset h (V \<union> set (C @ out1)))" using i3 o2 by (simp add: Un_assoc)
      have qh2: "visit_queue hdr2 = Some h2 # map Some R2" using q2' Cons by simp
      have w2: "bfs_while (Suc (Suc n)) h hdr2 [] = Some (Inr ([], hdr3))" if "n2 \<le> n" for n
      proof -
        have "devTraverseBfs (Suc n) h (Some h2) (Some (hdr2\<lparr>visit_queue := map Some R2\<rparr>))
              = Some (Inr ([], hdr3))"
          using devTraverseBfs_mono[OF c2, of "Suc n"] that o2 by simp
        from bfs_while_Suc[OF qh2 this]
        have "bfs_while (Suc (Suc n)) h hdr2 [] = bfs_while (Suc n) h hdr3 []" .
        then show ?thesis using bfs_while_done[of "[]" hdr3 n h] q3e by simp
      qed
      have d2: "bfs_do (Suc (Suc (Suc n))) h False hdr2 X (map Some out1)
          = Some (Inr (X, hdr3, map Some out1))" if "n2 \<le> n" for n X
        using bfs_do_Suc[OF w2[OF that] refl refl refl refl, where ow = False and nq = "map Some out1" and out = X] q3e by simp
      have qne: "visit_queue hdr2 \<noteq> []" using qh2 by simp
      have "bfs_do (Suc (Suc (Suc (Suc (n1 + n2))))) h False hdr1 (map Some C) []
          = Some (Inr (map Some (C @ out1), hdr3, map Some out1))"
        using d1[of "Suc (n1 + n2)"] d2[of "n1 + n2"] qne by simp
      from top[OF this] o1ne have r: "devTraverseBfs (Suc (Suc (Suc (Suc (Suc (n1 + n2)))))) h (Some s) (Some hdr)
          = Some (Inr (map Some (C @ out1), hdr3\<lparr>visit_queue := map Some out1\<rparr>))" by simp
      let ?hf = "hdr3\<lparr>visit_queue := map Some out1\<rparr>"
      have qf: "visit_queue ?hf = map Some (drop (length (newnodes V (cnt_out (h ! s)))) (C @ out1))"
        using C_def by auto
      have "hdr_inv ?hf (idset h (V \<union> set (C @ out1)))" using i3' by simp
      then show ?thesis unfolding bfs_post_def
        using r qo qf sub disj exA by blast
    qed
  qed
qed

lemma card_unvisited_less:
  assumes "V \<subset> W" "W \<subseteq> {..<length h}"
  shows "card ({..<length (h::'d heap)} - W) < card ({..<length h} - V)"
proof -
  have "{..<length h} - W \<subset> {..<length h} - V" using assms by auto
  then show ?thesis by (intro psubset_card_mono) auto
qed

lemma bfs_call:
  assumes ok: "graph_ok h"
  shows "bfs_pre h s V Q hdr \<Longrightarrow> bfs_post h s V Q hdr"
proof (induction "card ({..<length h} - V)" arbitrary: V s Q hdr rule: less_induct)
  case outer: less
  show ?case using outer.prems
  proof (induction "length Q" arbitrary: s Q hdr rule: less_induct)
    case inner: less
    show ?case
    proof (rule bfs_frame[OF ok inner.prems])
      fix s' V' Q' hdr'
      assume p: "bfs_pre h s' V' Q' hdr'" and d: "V \<subset> V' \<or> (V' = V \<and> length Q' < length Q)"
      show "bfs_post h s' V' Q' hdr'"
      proof (cases "V \<subset> V'")
        case True
        have "V' \<subseteq> {..<length h}" using p by (simp add: bfs_pre_def)
        from outer.hyps[OF card_unvisited_less[OF True this] p] show ?thesis .
      next
        case False
        then have "V' = V" "length Q' < length Q" using d by auto
        then show ?thesis using inner.hyps p by blast
      qed
    qed
  qed
qed

text \<open>Draining a queue of nodes when every recorded node is expanded already.\<close>

lemma closed_drain:
  assumes ok: "graph_ok h" and V: "V \<subseteq> {..<length h}" and ex: "\<forall>x\<in>V. expanded h V x"
    and inv: "hdr_inv hdr (idset h V)" and q: "visit_queue hdr = map Some Q" and Q: "Q \<noteq> []" "set Q \<subseteq> V"
  shows "\<exists>n hdr1. (\<forall>m\<ge>n. bfs_while (Suc (Suc m)) h hdr [] = Some (Inr ([], hdr1))) \<and>
           hdr_inv hdr1 (idset h V) \<and> visit_queue hdr1 = []"
proof -
  obtain s R where QR: "Q = s # R" using Q by (cases Q) auto
  have pre: "bfs_pre h s V R (hdr\<lparr>visit_queue := map Some R\<rparr>)"
    unfolding bfs_pre_def using QR Q V ex inv by auto
  from bfs_call[OF ok pre] obtain n out hdr1 where
    c: "devTraverseBfs n h (Some s) (Some (hdr\<lparr>visit_queue := map Some R\<rparr>)) = Some (Inr (map Some out, hdr1))"
    and qo: "queue_order h V (s # R) out"
    and i: "hdr_inv hdr1 (idset h (V \<union> set out))"
    and q1: "visit_queue hdr1 = map Some (drop (length (newnodes V (cnt_out (h ! s)))) out)"
    unfolding bfs_post_def by blast
  have "\<forall>x\<in>set (s # R). expanded h V x" using ex Q QR by auto
  from queue_order_closed[OF qo this] have o: "out = []" .
  have qe: "visit_queue hdr1 = []" using q1 o by simp
  have qh: "visit_queue hdr = Some s # map Some R" using q QR by simp
  have "bfs_while (Suc (Suc m)) h hdr [] = Some (Inr ([], hdr1))" if "n \<le> m" for m
  proof -
    have "devTraverseBfs (Suc m) h (Some s) (Some (hdr\<lparr>visit_queue := map Some R\<rparr>)) = Some (Inr ([], hdr1))"
      using devTraverseBfs_mono[OF c, of "Suc m"] that o by simp
    from bfs_while_Suc[OF qh this]
    have "bfs_while (Suc (Suc m)) h hdr [] = bfs_while (Suc m) h hdr1 []" .
    then show ?thesis using bfs_while_done[of "[]" hdr1 m h] qe by simp
  qed
  then show ?thesis using i o qe by auto
qed

lemma devTraverseBfs_owner:
  assumes ok: "graph_ok h" and a: "a < length h"
  shows "\<exists>n out hdr. devTraverseBfs n h (Some a) None = Some (Inr (map Some (a # out), hdr)) \<and>
           queue_order h {a} [a] out \<and> set out \<subseteq> {..<length h} \<and> a \<notin> set out"
proof -
  obtain hdr0 where t: "testAdd new_header (index (h ! a)) = (True, hdr0)"
    and i0: "hdr_inv hdr0 (idset h {a})" and q0: "visit_queue hdr0 = []"
    using testAdd_spec[OF hdr_inv_new graph_ok_index[OF ok a]] by (auto simp: new_header_def)
  define C where "C = newnodes {a} (cnt_out (h ! a))"
  have Va: "{a} \<subseteq> {..<length h}" using a by simp
  obtain hdr1 where f: "bfs_for h (cnt_out (h ! a)) hdr0 [Some a] = Inr ([Some a] @ map Some C, hdr1)"
    and i1: "hdr_inv hdr1 (idset h ({a} \<union> set C))" and q1: "visit_queue hdr1 = map Some C"
    and Csub: "set C \<subseteq> {..<length h}"
    using bfs_for_spec[OF ok Va i0 graph_ok_present[OF ok a], of "[Some a]"] q0 unfolding C_def by auto
  let ?X = "Some a # map Some C"
  have top: "devTraverseBfs (Suc n) h (Some a) None = Some (Inr (o2, h2))"
    if "bfs_do n h True hdr1 ?X [] = Some (Inr (o2, h2, nq))" for n o2 h2 nq
    using that a t f by (simp add: bfs_unfold header_of_def)
  have exp_a: "expanded h ({a} \<union> set C) a" unfolding C_def by (rule expanded_after)
  have Cdisj: "a \<notin> set C" unfolding C_def by (auto simp: set_newnodes)
  have VC: "{a} \<union> set C \<subseteq> {..<length h}" using a Csub by simp
  show ?thesis
  proof (cases C)
    case Nil
    have qe: "visit_queue hdr1 = []" using q1 Nil by simp
    have "bfs_while (Suc 0) h hdr1 [] = Some (Inr ([], hdr1))"
      using qe by (intro bfs_while_done) simp
    from bfs_do_Suc[OF this refl refl refl refl, where ow = True and nq = "[]" and out = ?X]
    have "bfs_do (Suc (Suc 0)) h True hdr1 ?X [] = Some (Inr (?X, hdr1, []))"
      using qe by simp
    from top[OF this] have r: "devTraverseBfs (Suc (Suc (Suc 0))) h (Some a) None
        = Some (Inr (map Some (a # []), hdr1))" using Nil by simp
    have qo: "queue_order h {a} [a] ([] @ [])"
      by (rule queue_Cons[where C = "[]"]) (use Nil C_def in \<open>auto intro: queue_Nil\<close>)
    show ?thesis using r qo by (intro exI[of _ "Suc (Suc (Suc 0))"] exI[of _ "[]"] exI[of _ hdr1]) auto
  next
    case (Cons h1 R)
    have pre1: "bfs_pre h h1 ({a} \<union> set C) R (hdr1\<lparr>visit_queue := map Some R\<rparr>)"
      unfolding bfs_pre_def using Cons VC i1 exp_a by auto
    from bfs_call[OF ok pre1] obtain n1 out1 hdr2 where
      c1: "devTraverseBfs n1 h (Some h1) (Some (hdr1\<lparr>visit_queue := map Some R\<rparr>))
            = Some (Inr (map Some out1, hdr2))"
      and qo1: "queue_order h ({a} \<union> set C) (h1 # R) out1"
      and i2: "hdr_inv hdr2 (idset h ({a} \<union> set C \<union> set out1))"
      and q2: "visit_queue hdr2 = map Some (drop (length (newnodes ({a} \<union> set C) (cnt_out (h ! h1)))) out1)"
      and o1sub: "set out1 \<subseteq> {..<length h}" and o1disj: "set out1 \<inter> ({a} \<union> set C) = {}"
      and ex1: "\<forall>x\<in>{a} \<union> set C \<union> set out1. expanded h ({a} \<union> set C \<union> set out1) x"
      unfolding bfs_post_def by blast
    define rest1 where "rest1 = drop (length (newnodes ({a} \<union> set C) (cnt_out (h ! h1)))) out1"
    let ?V1 = "{a} \<union> set C \<union> set out1"
    have V1: "?V1 \<subseteq> {..<length h}" using VC o1sub by simp
    have q2': "visit_queue hdr2 = map Some rest1" using q2 rest1_def by simp
    have qh1: "visit_queue hdr1 = Some h1 # map Some R" using q1 Cons by simp
    have out1_rest: "out1 = [] \<Longrightarrow> rest1 = []" by (simp add: rest1_def)
    have rest_sub: "set rest1 \<subseteq> ?V1" unfolding rest1_def by (auto dest: in_set_dropD)
    have w1: "bfs_while (Suc (Suc n)) h hdr1 [] = Some (Inr (map Some out1, hdr2))" if "n1 \<le> n" for n
    proof -
      have "devTraverseBfs (Suc n) h (Some h1) (Some (hdr1\<lparr>visit_queue := map Some R\<rparr>))
            = Some (Inr (map Some out1, hdr2))"
        using devTraverseBfs_mono[OF c1, of "Suc n"] that by simp
      from bfs_while_Suc[OF qh1 this]
      have "bfs_while (Suc (Suc n)) h hdr1 [] = bfs_while (Suc n) h hdr2 (map Some out1)" .
      moreover have "map Some out1 \<noteq> [] \<or> visit_queue hdr2 = []"
        using out1_rest q2' by (cases out1) auto
      ultimately show ?thesis using bfs_while_done by metis
    qed
    let ?Y = "?X @ map Some out1"
    have qo: "queue_order h {a} [a] (C @ out1)"
      using qo1 Cons C_def by (intro queue_Cons) auto
    have fin: "\<exists>n hdr. devTraverseBfs n h (Some a) None = Some (Inr (?Y, hdr))"
    proof (cases "out1 = []")
      case True
      then have qe: "visit_queue hdr2 = []" using q2' out1_rest by simp
      from bfs_do_Suc[OF w1[of n1] refl refl refl refl, where ow = True and nq = "[]" and out = ?X]
      have "bfs_do (Suc (Suc (Suc n1))) h True hdr1 ?X [] = Some (Inr (?Y, hdr2, []))"
        using qe True by simp
      from top[OF this] show ?thesis by blast
    next
      case o1ne: False
      have drain_out1: "\<exists>n hdrE. (\<forall>m\<ge>n. bfs_while (Suc (Suc m)) h (hdrA\<lparr>visit_queue := map Some out1\<rparr>) []
                = Some (Inr ([], hdrE))) \<and> hdr_inv hdrE (idset h ?V1) \<and> visit_queue hdrE = []"
        if "hdr_inv hdrA (idset h ?V1)" for hdrA
        using closed_drain[OF ok V1 ex1, of "hdrA\<lparr>visit_queue := map Some out1\<rparr>" out1] that o1ne
        by auto
      show ?thesis
      proof (cases "rest1 = []")
        case True
        then have qe: "visit_queue hdr2 = []" using q2' by simp
        let ?hp = "hdr2\<lparr>visit_queue := map Some out1\<rparr>"
        from drain_out1[OF i2] obtain n2 hdr3 where
          w2: "\<And>m. n2 \<le> m \<Longrightarrow> bfs_while (Suc (Suc m)) h ?hp [] = Some (Inr ([], hdr3))"
          and q3: "visit_queue hdr3 = []" by blast
        have d2: "bfs_do (Suc (Suc (Suc (n1 + n2)))) h True ?hp ?Y [] = Some (Inr (?Y, hdr3, []))"
          using bfs_do_Suc[OF w2[of "n1 + n2"] refl refl refl refl, where ow = True and nq = "[]" and out = ?Y] q3
          by simp
        from bfs_do_Suc[OF w1[of "Suc (n1 + n2)"] refl refl refl refl, where ow = True and nq = "[]" and out = ?X]
        have "bfs_do (Suc (Suc (Suc (Suc (n1 + n2))))) h True hdr1 ?X [] = Some (Inr (?Y, hdr3, []))"
          using qe o1ne d2 by simp
        from top[OF this] show ?thesis by blast
      next
        case False
        then have qne: "visit_queue hdr2 \<noteq> []" using q2' by simp
        from closed_drain[OF ok V1 ex1 i2 q2' False rest_sub] obtain n2 hdr3 where
          w2: "\<And>m. n2 \<le> m \<Longrightarrow> bfs_while (Suc (Suc m)) h hdr2 [] = Some (Inr ([], hdr3))"
          and i3: "hdr_inv hdr3 (idset h ?V1)" and q3: "visit_queue hdr3 = []" by blast
        let ?hp = "hdr3\<lparr>visit_queue := map Some out1\<rparr>"
        from drain_out1[OF i3] obtain n3 hdr4 where
          w3: "\<And>m. n3 \<le> m \<Longrightarrow> bfs_while (Suc (Suc m)) h ?hp [] = Some (Inr ([], hdr4))"
          and q4: "visit_queue hdr4 = []" by blast
        let ?N = "n1 + n2 + n3"
        have d3: "bfs_do (Suc (Suc (Suc ?N))) h True ?hp ?Y [] = Some (Inr (?Y, hdr4, []))"
          using bfs_do_Suc[OF w3[of ?N] refl refl refl refl, where ow = True and nq = "[]" and out = ?Y] q4
          by simp
        have d2: "bfs_do (Suc (Suc (Suc (Suc ?N)))) h True hdr2 ?Y (map Some out1) = Some (Inr (?Y, hdr4, []))"
          using bfs_do_Suc[OF w2[of "Suc ?N"] refl refl refl refl, where ow = True and nq = "map Some out1" and out = ?Y]
            q3 o1ne d3 by simp
        from bfs_do_Suc[OF w1[of "Suc (Suc ?N)"] refl refl refl refl, where ow = True and nq = "[]" and out = ?X]
        have "bfs_do (Suc (Suc (Suc (Suc (Suc ?N))))) h True hdr1 ?X [] = Some (Inr (?Y, hdr4, []))"
          using qne d2 by simp
        from top[OF this] show ?thesis by blast
      qed
    qed
    then obtain n hdr where "devTraverseBfs n h (Some a) None = Some (Inr (map Some (a # C @ out1), hdr))"
      by auto
    then show ?thesis using qo Csub o1sub Cdisj o1disj by (intro exI[of _ n] exI[of _ "C @ out1"] exI[of _ hdr]) auto
  qed
qed

inductive_cases queue_NilE: "queue_order h V [] out"
inductive_cases queue_ConsE: "queue_order h V (s # Q) out"

lemma next_level_Nil [simp]: "next_level h V [] = []"
  by (simp add: next_level_def)

lemma next_level_Cons:
  "next_level h V (s # L) =
     newnodes V (cnt_out (h ! s)) @ next_level h (V \<union> set (newnodes V (cnt_out (h ! s)))) L"
  by (simp add: next_level_def newnodes_append)

lemma queue_level:
  "queue_order h V (L @ N) out \<Longrightarrow>
     \<exists>out'. out = next_level h V L @ out' \<and>
       queue_order h (V \<union> set (next_level h V L)) (N @ next_level h V L) out'"
proof (induction L arbitrary: V N out)
  case Nil
  then show ?case by simp
next
  case (Cons s L)
  let ?C = "newnodes V (cnt_out (h ! s))"
  from Cons.prems obtain out1 where o: "out = ?C @ out1"
    and q: "queue_order h (V \<union> set ?C) (L @ (N @ ?C)) out1"
    by (auto elim: queue_ConsE)
  from Cons.IH[OF q] obtain out' where
    o1: "out1 = next_level h (V \<union> set ?C) L @ out'"
    and q1: "queue_order h (V \<union> set ?C \<union> set (next_level h (V \<union> set ?C) L))
              ((N @ ?C) @ next_level h (V \<union> set ?C) L) out'"
    by blast
  show ?case using o o1 q1 by (simp add: next_level_Cons Un_assoc)
qed

lemma level_Suc:
  "level h a (Suc k) = next_level h (fst (level_state h a k)) (level h a k)"
  "fst (level_state h a (Suc k)) = fst (level_state h a k) \<union> set (level h a (Suc k))"
  by (simp_all add: level_def level_state.simps(2) split_beta Let_def)

lemma level_0 [simp]: "level h a 0 = [a]" "fst (level_state h a 0) = {a}"
  by (simp_all add: level_def)

lemma queue_levels:
  assumes "queue_order h {a} [a] out"
  shows "\<exists>out'. a # out = concat (map (level h a) [0..<Suc k]) @ out' \<and>
           queue_order h (fst (level_state h a k)) (level h a k) out'"
proof (induction k)
  case 0
  then show ?case using assms by simp
next
  case (Suc k)
  then obtain out1 where o: "a # out = concat (map (level h a) [0..<Suc k]) @ out1"
    and q: "queue_order h (fst (level_state h a k)) (level h a k) out1" by blast
  from queue_level[of h _ "level h a k" "[]" out1] q obtain out' where
    "out1 = level h a (Suc k) @ out'"
    "queue_order h (fst (level_state h a (Suc k))) (level h a (Suc k)) out'"
    by (auto simp: level_Suc)
  then show ?case using o by auto
qed

lemma level_empty_persists: "level h a k = [] \<Longrightarrow> k \<le> j \<Longrightarrow> level h a j = []"
proof (induction j)
  case 0
  then show ?case by simp
next
  case (Suc j)
  then show ?case by (cases "k = Suc j") (auto simp: level_Suc)
qed

lemma levels_distinct:
  "distinct (concat (map (level h a) [0..<Suc k])) \<and>
   set (concat (map (level h a) [0..<Suc k])) = fst (level_state h a k)"
proof (induction k)
  case 0
  then show ?case by simp
next
  case (Suc k)
  have d: "distinct (level h a (Suc k))"
    and j: "set (level h a (Suc k)) \<inter> fst (level_state h a k) = {}"
    by (auto simp: level_Suc(1) next_level_def distinct_newnodes set_newnodes)
  show ?case using Suc d j by (auto simp: level_Suc(2))
qed

text \<open>The recorded set after level \<open>k\<close> is the ball, the level is the sphere.\<close>

lemma edges_present: "graph_ok h \<Longrightarrow> (x, y) \<in> edges h \<Longrightarrow> y < length h"
  using graph_ok_present[of h x] by (auto simp: edges_def)

lemma level_state_ball:
  assumes ok: "graph_ok h" and a: "a < length h"
  shows "fst (level_state h a k) = (\<Union>j\<le>k. (edges h ^^ j) `` {a}) \<and>
         set (level h a k) = (edges h ^^ k) `` {a} - (\<Union>j<k. (edges h ^^ j) `` {a}) \<and>
         fst (level_state h a k) \<subseteq> {..<length h}"
proof (induction k)
  case 0
  then show ?case using a by simp
next
  case (Suc k)
  let ?E = "edges h" and ?V = "fst (level_state h a k)" and ?L = "level h a k"
  let ?N = "level h a (Suc k)"
  from Suc have V: "?V = (\<Union>j\<le>k. (?E ^^ j) `` {a})"
    and L: "set ?L = (?E ^^ k) `` {a} - (\<Union>j<k. (?E ^^ j) `` {a})" and Vh: "?V \<subseteq> {..<length h}"
    by blast+
  have LV: "set ?L \<subseteq> ?V" using V L by auto
  have N: "set ?N = ?E `` set ?L - ?V"
    using LV Vh by (auto simp: level_Suc(1) next_level_def set_newnodes edges_def)
  have N2: "set ?N = (?E ^^ Suc k) `` {a} - ?V"
  proof (intro equalityI subsetI)
    fix b assume "b \<in> set ?N"
    then obtain c where c: "c \<in> set ?L" "(c, b) \<in> ?E" and bV: "b \<notin> ?V" using N by auto
    then have "(a, c) \<in> ?E ^^ k" using L by auto
    then have "(a, b) \<in> ?E ^^ Suc k" using c(2) by auto
    then show "b \<in> (?E ^^ Suc k) `` {a} - ?V" using bV by auto
  next
    fix b assume b: "b \<in> (?E ^^ Suc k) `` {a} - ?V"
    then obtain c where c: "(a, c) \<in> ?E ^^ k" "(c, b) \<in> ?E" by auto
    have "c \<in> set ?L"
    proof (rule ccontr)
      assume "c \<notin> set ?L"
      then obtain j where j: "j < k" "(a, c) \<in> ?E ^^ j" using L c(1) by auto
      then have "(a, b) \<in> ?E ^^ Suc j" using c(2) by auto
      moreover have "Suc j \<le> k" using j by simp
      ultimately have "b \<in> ?V" unfolding V by blast
      then show False using b by simp
    qed
    then show "b \<in> set ?N" using N c(2) b by auto
  qed
  have V': "fst (level_state h a (Suc k)) = (\<Union>j\<le>Suc k. (?E ^^ j) `` {a})"
  proof -
    have "fst (level_state h a (Suc k)) = ?V \<union> (?E ^^ Suc k) `` {a}"
      using N2 by (auto simp: level_Suc(2))
    also have "\<dots> = (\<Union>j\<le>Suc k. (?E ^^ j) `` {a})"
      unfolding V by (simp add: atMost_Suc Un_commute)
    finally show ?thesis .
  qed
  have L': "set ?N = (?E ^^ Suc k) `` {a} - (\<Union>j<Suc k. (?E ^^ j) `` {a})"
    using N2 V by (auto simp: less_Suc_eq_le)
  have "set ?N \<subseteq> {..<length h}" using N edges_present[OF ok] by auto
  then have "fst (level_state h a (Suc k)) \<subseteq> {..<length h}" using Vh by (simp add: level_Suc(2))
  then show ?case using V' L' by blast
qed

lemma level_card:
  assumes ok: "graph_ok h" and a: "a < length h"
  shows "level h a k \<noteq> [] \<Longrightarrow> Suc k \<le> card (fst (level_state h a k))"
proof (induction k)
  case 0
  then show ?case by simp
next
  case (Suc k)
  let ?V = "fst (level_state h a k)" and ?N = "level h a (Suc k)"
  have "level h a k \<noteq> []" using Suc.prems by (auto simp: level_Suc(1))
  from Suc.IH[OF this] have c: "Suc k \<le> card ?V" .
  have fin: "finite ?V" using level_state_ball[OF ok a, of k] by (meson finite_lessThan finite_subset)
  have dj: "set ?N \<inter> ?V = {}" by (auto simp: level_Suc(1) next_level_def set_newnodes)
  have "card (set ?N) \<ge> 1" using Suc.prems by (simp add: Suc_leI card_gt_0_iff)
  then have "card (?V \<union> set ?N) \<ge> Suc (Suc k)"
    using c fin dj by (subst card_Un_disjoint) auto
  then show ?case by (simp add: level_Suc(2))
qed

lemma level_last_empty:
  assumes ok: "graph_ok h" and a: "a < length h"
  shows "level h a (length h) = []"
proof (rule ccontr)
  assume "level h a (length h) \<noteq> []"
  from level_card[OF ok a this] have "Suc (length h) \<le> card (fst (level_state h a (length h)))" .
  moreover have "card (fst (level_state h a (length h))) \<le> card {..<length h}"
    using level_state_ball[OF ok a, of "length h"] by (intro card_mono) auto
  ultimately show False by simp
qed

lemma level_order_complete:
  assumes ok: "graph_ok h" and a: "a < length h"
  shows "distinct (level_order h a) \<and> set (level_order h a) = (edges h)\<^sup>* `` {a}"
proof -
  obtain m where m: "length h = Suc m" using a by (cases "length h") auto
  have lo: "level_order h a = concat (map (level h a) [0..<Suc m])" by (simp add: level_order_def m)
  have d: "distinct (level_order h a)" and s: "set (level_order h a) = fst (level_state h a m)"
    using levels_distinct[of h a m] lo by simp_all
  have ball: "fst (level_state h a k) = (\<Union>j\<le>k. (edges h ^^ j) `` {a})" for k
    using level_state_ball[OF ok a] by blast
  have stable: "(edges h ^^ j) `` {a} \<subseteq> fst (level_state h a m)" for j
  proof (cases "j \<le> m")
    case True
    then show ?thesis unfolding ball by blast
  next
    case False
    then have "length h \<le> j" using m by simp
    from level_empty_persists[OF level_last_empty[OF ok a] this]
    have e: "level h a j = []" .
    show ?thesis
    proof
      fix b assume b: "b \<in> (edges h ^^ j) `` {a}"
      show "b \<in> fst (level_state h a m)"
      proof (rule ccontr)
        assume nb: "b \<notin> fst (level_state h a m)"
        define i where "i = (LEAST i. (a, b) \<in> edges h ^^ i)"
        have i: "(a, b) \<in> edges h ^^ i" unfolding i_def using b by (metis (mono_tags, lifting) Image_singleton_iff LeastI)
        have least: "\<And>i'. i' < i \<Longrightarrow> (a, b) \<notin> edges h ^^ i'" unfolding i_def by (meson not_less_Least)
        have "b \<in> set (level h a i)" using level_state_ball[OF ok a, of i] i least by auto
        moreover have "i > m" using nb i unfolding ball by (meson UN_I atMost_iff Image_singleton_iff not_le_imp_less)
        then have "level h a i = []"
          using level_empty_persists[OF level_last_empty[OF ok a], of i] m by simp
        ultimately show False by simp
      qed
    qed
  qed
  have "(edges h)\<^sup>* `` {a} = (\<Union>j. (edges h ^^ j) `` {a})"
    by (auto simp: rtrancl_power)
  also have "\<dots> = fst (level_state h a m)"
    using stable ball[of m] by blast
  finally show ?thesis using d s by simp
qed

lemma devTraverseBfs_level_order:
  assumes ok: "graph_ok h" and a: "a < length h"
  shows "\<exists>n. \<forall>m\<ge>n. \<exists>hdr. devTraverseBfs m h (Some a) None = Some (Inr (map Some (level_order h a), hdr))"
proof -
  from devTraverseBfs_owner[OF ok a] obtain n out hdr where
    r: "devTraverseBfs n h (Some a) None = Some (Inr (map Some (a # out), hdr))"
    and q: "queue_order h {a} [a] out" by blast
  from queue_levels[OF q, of "length h"] obtain out' where
    o: "a # out = concat (map (level h a) [0..<Suc (length h)]) @ out'"
    and q': "queue_order h (fst (level_state h a (length h))) (level h a (length h)) out'" by blast
  have e: "level h a (length h) = []" by (rule level_last_empty[OF ok a])
  then have "out' = []" using q' by (auto elim: queue_NilE)
  then have "a # out = level_order h a" using o e by (simp add: level_order_def)
  then have "devTraverseBfs n h (Some a) None = Some (Inr (map Some (level_order h a), hdr))"
    using r by metis
  then show ?thesis using devTraverseBfs_mono by blast
qed

lemma hops_level:
  assumes ok: "graph_ok h" and a: "a < length h" and b: "b \<in> set (level h a k)"
  shows "hops h a b = k"
proof -
  have "(a, b) \<in> edges h ^^ k" and "\<And>j. j < k \<Longrightarrow> (a, b) \<notin> edges h ^^ j"
    using level_state_ball[OF ok a, of k] b by auto
  then show ?thesis unfolding hops_def
    by (intro Least_equality) (auto simp: not_less[symmetric])
qed

lemma sorted_levels:
  assumes "\<And>k x. x \<in> set (L k) \<Longrightarrow> f x = k"
  shows "sorted (map f (concat (map L [0..<n]))) \<and> (\<forall>x\<in>set (concat (map L [0..<n])). f x < n)"
proof (induction n)
  case 0
  then show ?case by simp
next
  case (Suc n)
  have "sorted (map f (L n))" using assms[of _ n]
    by (induction "L n") (auto simp: sorted_wrt_iff_nth_less dest!: nth_mem)
  then show ?case using Suc assms[of _ n]
    by (auto simp: sorted_append less_Suc_eq less_imp_le)
qed

text \<open>
  The traversal from a given start node: for a heap whose lists hold present references
  only and whose identities are unique and at most 4294967293, when the start identity
  resolves to the address \<open>a\<close>.
\<close>

lemma runBreadthFirst_started:
  assumes "graph_ok h" "start_of g ident = Some (Inr (Some a))" "a < length h"
  shows "(\<exists>enough. \<forall>fuel\<ge>enough.
            runBreadthFirst fuel h g ident = Some (Inr (map Some (level_order h a)))) \<and>
         distinct (level_order h a) \<and> set (level_order h a) = (edges h)\<^sup>* `` {a} \<and>
         sorted (map (hops h a) (level_order h a)) \<and>
         (\<forall>k. set (level h a k) = {b. (a, b) \<in> edges h ^^ k \<and> (\<forall>j<k. (a, b) \<notin> edges h ^^ j)})"
proof -
  from devTraverseBfs_level_order[OF assms(1) assms(3)] obtain n where
    n: "\<And>m. n \<le> m \<Longrightarrow> \<exists>hdr. devTraverseBfs m h (Some a) None = Some (Inr (map Some (level_order h a), hdr))"
    by blast
  have "runBreadthFirst m h g ident = Some (Inr (map Some (level_order h a)))" if "n \<le> m" for m
    using assms(2) n[OF that] by (auto simp: runBreadthFirst_def run_from_def)
  then have r: "\<exists>enough. \<forall>fuel\<ge>enough.
      runBreadthFirst fuel h g ident = Some (Inr (map Some (level_order h a)))" by blast
  have s: "sorted (map (hops h a) (level_order h a))"
    unfolding level_order_def
    using sorted_levels[of "level h a" "hops h a" "length h"] hops_level[OF assms(1) assms(3)]
    by blast
  have l: "set (level h a k) = {b. (a, b) \<in> edges h ^^ k \<and> (\<forall>j<k. (a, b) \<notin> edges h ^^ j)}" for k
    using level_state_ball[OF assms(1) assms(3), of k] by auto
  show ?thesis using r s l level_order_complete[OF assms(1) assms(3)] by blast
qed

text \<open>
  Claim C5, as stated, fails where a node has one of the two largest identities. On the
  graph built from \<open>{(4294967295,4294967293),(4294967293,4294967294)}\<close> the start
  identity 4294967295 resolves to the node at address 0, whose outbound list leads to
  the node at address 1 and from there to the node at address 2; \<open>runBreadthFirst\<close>
  returns the start node alone, for the header takes the neighbour 4294967293 for the
  minimum it started with.
\<close>

theorem runBreadthFirst_reserved_identity:
  "(case new_graph () [] [cnt 4294967295 4294967293, cnt 4294967293 4294967294] of
      Inl e \<Rightarrow> None
    | Inr (h, g) \<Rightarrow> Some (runBreadthFirst 10 h g 4294967295, map index h, map cnt_out h))
     = Some (Some (Inr [Some 0]),
             [4294967295, 4294967293, 4294967294], [[Some 1], [Some 2], []])"
  by code_simp

text \<open>
  Claim C5, amended by the bound on the identities. A graph is a heap \<open>h\<close> and a
  \<open>c_Graph\<close> \<open>g\<close> that the constructor and the operations have produced, where every
  node of the heap is one of the graph's. If no identity of the graph is one of the two
  largest values, and \<open>ident\<close> is one of its identities, then \<open>ident\<close> resolves to the
  one node \<open>a\<close> that carries it, and \<open>runBreadthFirst\<close> returns, with any fuel from
  some bound on, the level order from \<open>a\<close>. That list holds each node reachable from
  \<open>a\<close> exactly once and is sorted by shortest-hop distance, so no node of a later level
  precedes a node of an earlier one; level \<open>k\<close> is made of the nodes at distance exactly
  \<open>k\<close>, in the order of their first discovery from the level before, that is by
  adjacency-list order.
\<close>

theorem runBreadthFirst_level_order:
  assumes "reachable h g" "count g = length h" "\<forall>x\<in>set (indexes g). x \<le> 4294967293"
    and "ident \<in> set (indexes g)"
  shows "\<exists>a. a < length h \<and> index (h ! a) = ident \<and> distinct (map index h) \<and>
         (\<exists>enough. \<forall>fuel\<ge>enough.
            runBreadthFirst fuel h g ident = Some (Inr (map Some (level_order h a)))) \<and>
         distinct (level_order h a) \<and> set (level_order h a) = (edges h)\<^sup>* `` {a} \<and>
         sorted (map (hops h a) (level_order h a)) \<and>
         (\<forall>k. set (level h a k) = {b. (a, b) \<in> edges h ^^ k \<and> (\<forall>j<k. (a, b) \<notin> edges h ^^ j)})"
proof -
  have ok: "graph_ok h" by (rule owned_graph_ok[OF assms(1) assms(2) assms(3)])
  from owned_start[OF assms(1) assms(2) assms(4)] obtain a where
    a: "a < length h" "index (h ! a) = ident" "start_of g ident = Some (Inr (Some a))" by blast
  have d: "distinct (map index h)" using ok by (simp add: graph_ok_def)
  from runBreadthFirst_started[OF ok a(3) a(1)] a(1) a(2) d show ?thesis by blast
qed

text \<open>
  Witness for C5: the graph built from \<open>{(5,1),(1,2),(1,3),(2,4),(3,4)}\<close>, started at
  identity 1, which is stored second. The level order is the nodes of the identities
  1, 2, 3, 4; the node of identity 5 is not reachable. On the graph built from
  \<open>{(1,2),(2,3),(3,1)}\<close> the traversal from identity 1 yields the nodes of 1, 2, 3.
\<close>

theorem runBreadthFirst_level_order_witness:
  "reachable [node_of 5 [Some 1] [], node_of 1 [Some 2, Some 3] [Some 0], node_of 2 [Some 4] [Some 1],
          node_of 3 [Some 4] [Some 1], node_of 4 [] [Some 2, Some 3]]
     \<lparr>raw_ptrs = [Some 0, Some 1, Some 2, Some 3, Some 4],
          calc_cnts = [cnt 5 1, cnt 1 2, cnt 1 3, cnt 2 4, cnt 3 4],
          degrees = [1, 2, 1, 1, 0], indexes = [5, 1, 2, 3, 4], count = 5\<rparr> \<and>
   list_all (\<lambda>x. x \<le> 4294967293) (indexes \<lparr>raw_ptrs = [Some 0, Some 1, Some 2, Some 3, Some 4],
          calc_cnts = [cnt 5 1, cnt 1 2, cnt 1 3, cnt 2 4, cnt 3 4],
          degrees = [1, 2, 1, 1, 0], indexes = [5, 1, 2, 3, 4], count = 5\<rparr>) \<and>
   (\<exists>a. a < length [node_of 5 [Some 1] [], node_of 1 [Some 2, Some 3] [Some 0], node_of 2 [Some 4] [Some 1],
          node_of 3 [Some 4] [Some 1], node_of 4 [] [Some 2, Some 3]] \<and>
      index ([node_of 5 [Some 1] [], node_of 1 [Some 2, Some 3] [Some 0], node_of 2 [Some 4] [Some 1],
          node_of 3 [Some 4] [Some 1], node_of 4 [] [Some 2, Some 3]] ! a) = 1 \<and>
      (\<exists>enough. \<forall>fuel\<ge>enough.
         runBreadthFirst fuel [node_of 5 [Some 1] [], node_of 1 [Some 2, Some 3] [Some 0], node_of 2 [Some 4] [Some 1],
          node_of 3 [Some 4] [Some 1], node_of 4 [] [Some 2, Some 3]]
           \<lparr>raw_ptrs = [Some 0, Some 1, Some 2, Some 3, Some 4],
          calc_cnts = [cnt 5 1, cnt 1 2, cnt 1 3, cnt 2 4, cnt 3 4],
          degrees = [1, 2, 1, 1, 0], indexes = [5, 1, 2, 3, 4], count = 5\<rparr> 1
           = Some (Inr (map Some (level_order [node_of 5 [Some 1] [], node_of 1 [Some 2, Some 3] [Some 0], node_of 2 [Some 4] [Some 1],
          node_of 3 [Some 4] [Some 1], node_of 4 [] [Some 2, Some 3]] a)))) \<and>
      sorted (map (hops [node_of 5 [Some 1] [], node_of 1 [Some 2, Some 3] [Some 0], node_of 2 [Some 4] [Some 1],
          node_of 3 [Some 4] [Some 1], node_of 4 [] [Some 2, Some 3]] a)
                (level_order [node_of 5 [Some 1] [], node_of 1 [Some 2, Some 3] [Some 0], node_of 2 [Some 4] [Some 1],
          node_of 3 [Some 4] [Some 1], node_of 4 [] [Some 2, Some 3]] a))) \<and>
   level_order [node_of 5 [Some 1] [], node_of 1 [Some 2, Some 3] [Some 0], node_of 2 [Some 4] [Some 1],
          node_of 3 [Some 4] [Some 1], node_of 4 [] [Some 2, Some 3]] 1
     = [1, 2, 3, 4] \<and>
   runBreadthFirst 12 [node_of 5 [Some 1] [], node_of 1 [Some 2, Some 3] [Some 0], node_of 2 [Some 4] [Some 1],
          node_of 3 [Some 4] [Some 1], node_of 4 [] [Some 2, Some 3]]
     \<lparr>raw_ptrs = [Some 0, Some 1, Some 2, Some 3, Some 4],
          calc_cnts = [cnt 5 1, cnt 1 2, cnt 1 3, cnt 2 4, cnt 3 4],
          degrees = [1, 2, 1, 1, 0], indexes = [5, 1, 2, 3, 4], count = 5\<rparr> 1
     = Some (Inr [Some 1, Some 2, Some 3, Some 4]) \<and>
   (case new_graph () [] [cnt 1 2, cnt 2 3, cnt 3 1] of Inl e \<Rightarrow> None
    | Inr (h, g) \<Rightarrow> runBreadthFirst 10 h g 1) = Some (Inr [Some 0, Some 1, Some 2])"
proof -
  let ?h = "[node_of 5 [Some 1] [], node_of 1 [Some 2, Some 3] [Some 0], node_of 2 [Some 4] [Some 1],
          node_of 3 [Some 4] [Some 1], node_of 4 [] [Some 2, Some 3]]"
  let ?g = "\<lparr>raw_ptrs = [Some 0, Some 1, Some 2, Some 3, Some 4],
          calc_cnts = [cnt 5 1, cnt 1 2, cnt 1 3, cnt 2 4, cnt 3 4],
          degrees = [1, 2, 1, 1, 0], indexes = [5, 1, 2, 3, 4], count = 5\<rparr>"
  have ng: "new_graph () [] [cnt 5 1, cnt 1 2, cnt 1 3, cnt 2 4, cnt 3 4] = Inr (?h, ?g)"
    by code_simp
  have r: "reachable ?h ?g" by (rule reachable.constructed[OF ng])
  have c: "count ?g = length ?h" by simp
  have b: "\<forall>x\<in>set (indexes ?g). x \<le> 4294967293" by simp
  have i: "1 \<in> set (indexes ?g)" by simp
  have la: "list_all (\<lambda>x. x \<le> 4294967293) (indexes ?g)" by simp
  have lo: "level_order ?h 1 = [1, 2, 3, 4]"
    by code_simp
  have run: "runBreadthFirst 12 ?h ?g 1 = Some (Inr [Some 1, Some 2, Some 3, Some 4])"
    by code_simp
  have sc: "(case new_graph () [] [cnt 1 2, cnt 2 3, cnt 3 1] of Inl e \<Rightarrow> None
    | Inr (h, g) \<Rightarrow> runBreadthFirst 10 h g 1) = Some (Inr [Some 0, Some 1, Some 2])"
    by code_simp
  have ex: "\<exists>a. a < length ?h \<and> index (?h ! a) = 1 \<and>
      (\<exists>enough. \<forall>fuel\<ge>enough.
         runBreadthFirst fuel ?h ?g 1 = Some (Inr (map Some (level_order ?h a)))) \<and>
      sorted (map (hops ?h a) (level_order ?h a))"
    using runBreadthFirst_level_order[OF r c b i] by blast
  show ?thesis using r la ex lo run sc by blast
qed

end
